theory Spec2Isabelle
  imports Main "HOL-Library.Word"
begin

unbundle bit_operations_syntax

section \<open>Characters\<close>

text \<open>
  Bytes of files, strings and keys are values of type \<^typ>\<open>char\<close>. The C code holds a
  character either in a \<^verbatim>\<open>char\<close> or in an \<^verbatim>\<open>int\<close>. The compiler targets x86-64 only,
  where plain \<^verbatim>\<open>char\<close> is signed: reading a \<^verbatim>\<open>char\<close> into an \<^verbatim>\<open>int\<close> sign-extends it
  (\<open>schar_int\<close>), whereas \<^verbatim>\<open>getc\<close> returns the byte as an \<^verbatim>\<open>unsigned char\<close>
  (\<open>uchar_int\<close>). Assigning an \<^verbatim>\<open>int\<close> to a \<^verbatim>\<open>char\<close> keeps the low eight bits
  (\<open>int_char\<close>).
\<close>

definition uchar_int :: "char \<Rightarrow> int" where
  "uchar_int c = of_char c"

definition schar_int :: "char \<Rightarrow> int" where
  "schar_int c = (if (of_char c :: int) < 128 then of_char c else of_char c - 256)"

definition int_char :: "int \<Rightarrow> char" where
  "int_char i = char_of i"

text \<open>A character constant of the C source, such as \<^verbatim>\<open>'a'\<close>, is the \<^verbatim>\<open>int\<close> \<open>ord CHR ''a''\<close>.\<close>

abbreviation (input) ord :: "char \<Rightarrow> int" where
  "ord c \<equiv> of_char c"

section \<open>The scope-chained string map\<close>

type_synonym ptr = nat

text \<open>A value handle (\<^verbatim>\<open>void *\<close>) is an address; address 0 is the null pointer.\<close>

definition NULL :: ptr where
  "NULL = 0"

text \<open>
  An entry of the \<^verbatim>\<open>key\<close> array is the null pointer, the \<^verbatim>\<open>TOMBSTONE\<close> pointer, or a
  pointer to a NUL-terminated string, which \<^verbatim>\<open>strcmp\<close> compares by content.
\<close>

datatype keyptr = KNULL | TOMBSTONE | Key string

text \<open>
  \<^verbatim>\<open>struct Map\<close>. The arrays \<^verbatim>\<open>key\<close> and \<^verbatim>\<open>val\<close> are \<open>None\<close> when the pointer is
  null (a map that was never allocated), and the list of their \<^verbatim>\<open>size\<close> cells otherwise.
\<close>

datatype Map = Map
  (parent: "Map option")
  (key: "keyptr list option")
  (val: "ptr list option")
  (msize: int)
  (nelem: int)
  (nused: int)

definition INIT_SIZE :: int where
  "INIT_SIZE = 16"

text \<open>
  \<^verbatim>\<open>hash\<close>: FNV over the bytes of the key, in \<^verbatim>\<open>uint32_t\<close> arithmetic. \<^verbatim>\<open>r ^= *p\<close>
  promotes the (signed) \<^verbatim>\<open>char\<close> to \<^verbatim>\<open>int\<close> and converts it to \<^verbatim>\<open>uint32_t\<close>.
\<close>

fun hash_loop :: "32 word \<Rightarrow> string \<Rightarrow> 32 word" where
  "hash_loop r [] = r"
| "hash_loop r (c # p) = hash_loop ((r XOR word_of_int (schar_int c)) * 16777619) p"

definition hash :: "string \<Rightarrow> 32 word" where
  "hash p = hash_loop 2166136261 p"

definition calloc :: "int \<Rightarrow> 'a \<Rightarrow> 'a list" where
  "calloc n z = replicate (nat n) z"

definition do_make_map :: "Map option \<Rightarrow> int \<Rightarrow> Map" where
  "do_make_map par sz = Map par (Some (calloc sz KNULL)) (Some (calloc sz NULL)) sz 0 0"

definition make_map :: Map where
  "make_map = do_make_map None INIT_SIZE"

definition make_map_parent :: "Map \<Rightarrow> Map" where
  "make_map_parent par = do_make_map (Some par) INIT_SIZE"

text \<open>
  \<^verbatim>\<open>hash(key) & mask\<close> and \<^verbatim>\<open>(i + 1) & mask\<close>, the index arithmetic of the probe loops
  (the variable \<^verbatim>\<open>mask\<close> is \<open>msk\<close> here).
\<close>

definition slot_of :: "string \<Rightarrow> int \<Rightarrow> nat" where
  "slot_of k msk = nat (uint (hash k) AND msk)"

definition next_slot :: "nat \<Rightarrow> int \<Rightarrow> nat" where
  "next_slot i msk = nat ((int i + 1) AND msk)"

text \<open>
  The probe loops of the map have no exit condition of their own: they leave at a null key
  (or at a match). Until they leave they change nothing, and the index stays within
  \<open>0 .. msk\<close>, so a loop that has made as many steps as the table has cells without leaving
  has come back to an index it has tested before and repeats for ever. The loops below
  count these steps down from the size of the table; the result \<open>None\<close> is that endless
  loop.
\<close>

text \<open>The inner loop of \<^verbatim>\<open>maybe_rehash\<close>: the first null cell of the new array from \<open>j\<close>.\<close>

fun rehash_probe :: "keyptr list \<Rightarrow> int \<Rightarrow> nat \<Rightarrow> nat \<Rightarrow> nat option" where
  "rehash_probe k msk j 0 = None"
| "rehash_probe k msk j (Suc n) =
     (if k ! j \<noteq> KNULL then rehash_probe k msk (next_slot j msk) n else Some j)"

text \<open>The outer loop of \<^verbatim>\<open>maybe_rehash\<close> over the cells \<open>i\<close> of the old arrays, in order.\<close>

fun rehash_loop ::
  "(keyptr \<times> ptr) list \<Rightarrow> int \<Rightarrow> keyptr list \<times> ptr list \<Rightarrow> (keyptr list \<times> ptr list) option"
where
  "rehash_loop [] msk kv = Some kv"
| "rehash_loop ((ki, vi) # rest) msk (k, v) =
     (case ki of
        KNULL \<Rightarrow> rehash_loop rest msk (k, v)
      | TOMBSTONE \<Rightarrow> rehash_loop rest msk (k, v)
      | Key s \<Rightarrow>
          (case rehash_probe k msk (slot_of s msk) (length k) of
             None \<Rightarrow> None
           | Some j \<Rightarrow> rehash_loop rest msk (k[j := ki], v[j := vi])))"

text \<open>
  \<^verbatim>\<open>maybe_rehash\<close>. The tests \<^verbatim>\<open>nused < size * 0.7\<close> and \<^verbatim>\<open>nelem < size * 0.35\<close> compare
  in \<^verbatim>\<open>double\<close>; for the integers of the code (\<^verbatim>\<open>int\<close> counters, \<open>size\<close> a power of two)
  the product is never within rounding distance of an integer, so they are the integer
  comparisons \<open>10 * nused < 7 * size\<close> and \<open>20 * nelem < 7 * size\<close>.
\<close>

definition maybe_rehash :: "Map \<Rightarrow> Map option" where
  "maybe_rehash m =
     (case key m of
        None \<Rightarrow>
          Some (Map (parent m) (Some (calloc INIT_SIZE KNULL)) (Some (calloc INIT_SIZE NULL))
                  INIT_SIZE (nelem m) (nused m))
      | Some ks \<Rightarrow>
          if 10 * nused m < 7 * msize m then Some m
          else
            let newsize = (if 20 * nelem m < 7 * msize m then msize m else msize m * 2);
                msk = newsize - 1
            in (case rehash_loop (take (nat (msize m)) (zip ks (the (val m)))) msk
                        (calloc newsize KNULL, calloc newsize NULL) of
                  None \<Rightarrow> None
                | Some (k, v) \<Rightarrow> Some (Map (parent m) (Some k) (Some v) newsize (nelem m) (nelem m))))"

text \<open>The loop of \<^verbatim>\<open>map_get_nostack\<close>.\<close>

fun get_probe :: "keyptr list \<Rightarrow> ptr list \<Rightarrow> string \<Rightarrow> int \<Rightarrow> nat \<Rightarrow> nat \<Rightarrow> ptr option" where
  "get_probe ks vs k msk i 0 = None"
| "get_probe ks vs k msk i (Suc n) =
     (case ks ! i of
        KNULL \<Rightarrow> Some NULL
      | TOMBSTONE \<Rightarrow> get_probe ks vs k msk (next_slot i msk) n
      | Key s \<Rightarrow> if s = k then Some (vs ! i) else get_probe ks vs k msk (next_slot i msk) n)"

definition map_get_nostack :: "Map \<Rightarrow> string \<Rightarrow> ptr option" where
  "map_get_nostack m k =
     (case key m of
        None \<Rightarrow> Some NULL
      | Some ks \<Rightarrow>
          let msk = msize m - 1
          in get_probe ks (the (val m)) k msk (slot_of k msk) (length ks))"

fun map_get :: "Map \<Rightarrow> string \<Rightarrow> ptr option" where
  "map_get (Map par ks vs sz ne nu) k =
     (case map_get_nostack (Map par ks vs sz ne nu) k of
        None \<Rightarrow> None
      | Some r \<Rightarrow>
          if r \<noteq> NULL then Some r
          else (case par of Some p \<Rightarrow> map_get p k | None \<Rightarrow> Some NULL))"

text \<open>The loop of \<^verbatim>\<open>map_put\<close>, after \<^verbatim>\<open>maybe_rehash\<close>.\<close>

fun put_probe :: "Map \<Rightarrow> string \<Rightarrow> ptr \<Rightarrow> int \<Rightarrow> nat \<Rightarrow> nat \<Rightarrow> Map option" where
  "put_probe m k v msk i 0 = None"
| "put_probe m k v msk i (Suc n) =
     (let ks = the (key m); vs = the (val m); k0 = ks ! i
      in if k0 = KNULL \<or> k0 = TOMBSTONE
         then Some (Map (parent m) (Some (ks[i := Key k])) (Some (vs[i := v])) (msize m)
                      (nelem m + 1) (if k0 = KNULL then nused m + 1 else nused m))
         else if k0 = Key k
         then Some (Map (parent m) (Some ks) (Some (vs[i := v])) (msize m) (nelem m) (nused m))
         else put_probe m k v msk (next_slot i msk) n)"

definition map_put :: "Map \<Rightarrow> string \<Rightarrow> ptr \<Rightarrow> Map option" where
  "map_put m0 k v =
     (case maybe_rehash m0 of
        None \<Rightarrow> None
      | Some m \<Rightarrow>
          let msk = msize m - 1
          in put_probe m k v msk (slot_of k msk) (length (the (key m))))"

text \<open>The loop of \<^verbatim>\<open>map_remove\<close>.\<close>

fun remove_probe :: "Map \<Rightarrow> string \<Rightarrow> int \<Rightarrow> nat \<Rightarrow> nat \<Rightarrow> Map option" where
  "remove_probe m k msk i 0 = None"
| "remove_probe m k msk i (Suc n) =
     (let ks = the (key m); vs = the (val m)
      in if ks ! i = KNULL then Some m
         else if ks ! i = TOMBSTONE \<or> ks ! i \<noteq> Key k
         then remove_probe m k msk (next_slot i msk) n
         else Some (Map (parent m) (Some (ks[i := TOMBSTONE])) (Some (vs[i := NULL])) (msize m)
                      (nelem m - 1) (nused m)))"

definition map_remove :: "Map \<Rightarrow> string \<Rightarrow> Map option" where
  "map_remove m k =
     (case key m of
        None \<Rightarrow> Some m
      | Some ks \<Rightarrow>
          let msk = msize m - 1
          in remove_probe m k msk (slot_of k msk) (length ks))"

definition map_len :: "Map \<Rightarrow> int" where
  "map_len m = nelem m"

text \<open>
  The shape of an allocated map: both arrays have \<^verbatim>\<open>size\<close> cells, and there is at least
  one cell.
\<close>

definition map_wf :: "Map \<Rightarrow> bool" where
  "map_wf m =
     (case key m of
        None \<Rightarrow> True
      | Some ks \<Rightarrow>
          (case val m of
             None \<Rightarrow> False
           | Some vs \<Rightarrow> 0 < msize m \<and> int (length ks) = msize m \<and> int (length vs) = msize m))"

subsection \<open>Properties of the map\<close>

lemma slot_of_bound: "0 \<le> msk \<Longrightarrow> int (slot_of k msk) \<le> msk"
  unfolding slot_of_def by (simp add: AND_upper2')

lemma next_slot_bound: "0 \<le> msk \<Longrightarrow> int (next_slot i msk) \<le> msk"
  unfolding next_slot_def by (simp add: AND_upper2')

lemma rehash_loop_length:
  "rehash_loop xs msk (k, v) = Some (k', v') \<Longrightarrow> length k' = length k \<and> length v' = length v"
proof (induction xs msk "(k, v)" arbitrary: k v rule: rehash_loop.induct)
  case (1 msk)
  then show ?case by simp
next
  case (2 ki vi rest msk k v)
  then show ?case
    by (cases ki) (auto split: option.splits)
qed

lemma rehash_loop_keys:
  "rehash_loop xs msk (k, v) = Some (k', v') \<Longrightarrow> set k' \<subseteq> set k \<union> fst ` set xs"
proof (induction xs msk "(k, v)" arbitrary: k v rule: rehash_loop.induct)
  case (1 msk)
  then show ?case by simp
next
  case (2 ki vi rest msk k v)
  show ?case
  proof (cases ki)
    case KNULL
    with 2 show ?thesis by auto
  next
    case TOMBSTONE
    with 2 show ?thesis by auto
  next
    case (Key s)
    with 2 obtain j where j: "rehash_probe k msk (slot_of s msk) (length k) = Some j"
      and r: "rehash_loop rest msk (k[j := ki], v[j := vi]) = Some (k', v')"
      by (auto split: option.splits)
    from 2(3)[OF Key j r] have "set k' \<subseteq> set (k[j := ki]) \<union> fst ` set rest" .
    moreover have "set (k[j := ki]) \<subseteq> insert ki (set k)" by (rule set_update_subset_insert)
    ultimately show ?thesis by auto
  qed
qed


lemma maybe_rehash_wf:
  assumes "map_wf m" and "maybe_rehash m = Some m1"
  shows "\<exists>ks vs. key m1 = Some ks \<and> val m1 = Some vs \<and> 0 < msize m1 \<and>
           int (length ks) = msize m1 \<and> int (length vs) = msize m1"
    and "parent m1 = parent m" and "nelem m1 = nelem m"
  using assms
  by (auto simp: map_wf_def maybe_rehash_def calloc_def INIT_SIZE_def Let_def
           dest!: rehash_loop_length split: option.splits if_splits)

lemma maybe_rehash_keys:
  assumes "maybe_rehash m = Some m1" and "Key k \<in> set (the (key m1))"
  shows "key m \<noteq> None \<and> Key k \<in> set (the (key m))"
proof (cases "key m")
  case None
  with assms show ?thesis
    by (auto simp: maybe_rehash_def calloc_def INIT_SIZE_def)
next
  case (Some ks)
  show ?thesis
  proof (cases "10 * nused m < 7 * msize m")
    case True
    with Some assms show ?thesis by (auto simp: maybe_rehash_def)
  next
    case False
    with Some assms obtain k' v' newsize where
      r: "rehash_loop (take (nat (msize m)) (zip ks (the (val m)))) (newsize - 1)
            (calloc newsize KNULL, calloc newsize NULL) = Some (k', v')"
      and m1: "key m1 = Some k'"
      by (auto simp: maybe_rehash_def Let_def split: option.splits if_splits)
    from rehash_loop_keys[OF r] m1 assms(2)
    have "Key k \<in> set (calloc newsize KNULL) \<union> fst ` set (take (nat (msize m)) (zip ks (the (val m))))"
      by auto
    then have "Key k \<in> fst ` set (zip ks (the (val m)))"
      by (auto simp: calloc_def dest: in_set_takeD)
    then have "Key k \<in> set ks"
      by (auto dest: set_zip_leftD)
    with Some show ?thesis by simp
  qed
qed

lemma put_probe_get:
  assumes "put_probe m k v msk i n = Some m'"
    and "key m = Some ks" and "val m = Some vs"
    and "0 \<le> msk" and "int (length ks) = msk + 1" and "length vs = length ks"
    and "i < length ks"
  shows "\<exists>j < length ks. ks ! j \<in> {KNULL, TOMBSTONE, Key k} \<and>
           m' = Map (parent m) (Some (ks[j := Key k])) (Some (vs[j := v])) (msize m)
                  (if ks ! j = Key k then nelem m else nelem m + 1)
                  (if ks ! j = KNULL then nused m + 1 else nused m) \<and>
           get_probe (ks[j := Key k]) (vs[j := v]) k msk i n = Some v"
  using assms
proof (induction n arbitrary: i)
  case 0
  then show ?case by simp
next
  case (Suc n)
  consider (free) "ks ! i = KNULL \<or> ks ! i = TOMBSTONE" | (hit) "ks ! i = Key k"
    | (other) s where "ks ! i = Key s" "s \<noteq> k"
    by (cases "ks ! i") auto
  then show ?case
  proof cases
    case free
    with Suc.prems show ?thesis
      by (intro exI[of _ i]) (auto simp: Let_def)
  next
    case hit
    then have "ks[i := Key k] = ks" by (metis list_update_id)
    with hit Suc.prems show ?thesis
      by (intro exI[of _ i]) (auto simp: Let_def)
  next
    case other
    let ?i' = "next_slot i msk"
    from Suc.prems(4,5) next_slot_bound[of msk i] have i': "?i' < length ks" by simp
    from other Suc.prems have "put_probe m k v msk ?i' n = Some m'"
      by (simp add: Let_def)
    from Suc.IH[OF this Suc.prems(2-6) i']
    obtain j where j: "j < length ks" "ks ! j \<in> {KNULL, TOMBSTONE, Key k}"
      "m' = Map (parent m) (Some (ks[j := Key k])) (Some (vs[j := v])) (msize m)
                  (if ks ! j = Key k then nelem m else nelem m + 1)
                  (if ks ! j = KNULL then nused m + 1 else nused m)"
      "get_probe (ks[j := Key k]) (vs[j := v]) k msk ?i' n = Some v"
      by blast
    from j(2) other have "j \<noteq> i" by auto
    with other j show ?thesis
      by (intro exI[of _ j]) simp
  qed
qed


lemma map_put_get_nostack:
  assumes "map_wf m" and "map_put m k v = Some m'"
  shows "map_get_nostack m' k = Some v \<and> parent m' = parent m \<and>
         key m' \<noteq> None \<and> Key k \<in> set (the (key m')) \<and>
         (key m = None \<or> Key k \<notin> set (the (key m)) \<longrightarrow> nelem m' = nelem m + 1)"
proof -
  from assms(2) obtain m1 where m1: "maybe_rehash m = Some m1"
    and put: "put_probe m1 k v (msize m1 - 1) (slot_of k (msize m1 - 1)) (length (the (key m1))) = Some m'"
    by (auto simp: map_put_def Let_def split: option.splits)
  from maybe_rehash_wf[OF assms(1) m1] obtain ks vs where
    kv: "key m1 = Some ks" "val m1 = Some vs" "0 < msize m1"
        "int (length ks) = msize m1" "int (length vs) = msize m1"
    and par: "parent m1 = parent m" and ne: "nelem m1 = nelem m"
    by blast
  let ?msk = "msize m1 - 1"
  have msk: "0 \<le> ?msk" "int (length ks) = ?msk + 1" "length vs = length ks"
    using kv by simp_all
  have i0: "slot_of k ?msk < length ks"
    using slot_of_bound[OF msk(1), of k] kv by simp
  from put kv have put': "put_probe m1 k v ?msk (slot_of k ?msk) (length ks) = Some m'"
    by simp
  from put_probe_get[OF put' kv(1,2) msk i0]
  obtain j where j: "j < length ks" "ks ! j \<in> {KNULL, TOMBSTONE, Key k}"
    and m': "m' = Map (parent m1) (Some (ks[j := Key k])) (Some (vs[j := v])) (msize m1)
                  (if ks ! j = Key k then nelem m1 else nelem m1 + 1)
                  (if ks ! j = KNULL then nused m1 + 1 else nused m1)"
    and g: "get_probe (ks[j := Key k]) (vs[j := v]) k ?msk (slot_of k ?msk) (length ks) = Some v"
    by blast
  have get: "map_get_nostack m' k = Some v"
    using g by (simp add: m' map_get_nostack_def)
  have live: "Key k \<in> set (the (key m'))"
    using j(1) by (simp add: m' set_update_memI)
  have cnt: "nelem m' = nelem m + 1" if "key m = None \<or> Key k \<notin> set (the (key m))"
  proof -
    have "ks ! j \<noteq> Key k"
    proof
      assume "ks ! j = Key k"
      with j(1) have "Key k \<in> set (the (key m1))" using kv(1) by (auto simp: in_set_conv_nth)
      from maybe_rehash_keys[OF m1 this] that show False by auto
    qed
    then show ?thesis by (simp add: m' ne)
  qed
  from get live cnt par show ?thesis by (simp add: m')
qed

lemma map_get_unfold:
  "map_get m k =
     (case map_get_nostack m k of
        None \<Rightarrow> None
      | Some r \<Rightarrow>
          if r \<noteq> NULL then Some r
          else (case parent m of Some p \<Rightarrow> map_get p k | None \<Rightarrow> Some NULL))"
  by (cases m) (auto split: option.splits)

subsection \<open>The probe loops end\<close>

text \<open>
  The cells of a key array that are in use (not null), and those that hold a key.
\<close>

definition used_cells :: "keyptr list \<Rightarrow> nat" where
  "used_cells ks = length (filter (\<lambda>k. k \<noteq> KNULL) ks)"

definition live_cells :: "keyptr list \<Rightarrow> nat" where
  "live_cells ks = length (filter (\<lambda>k. k \<noteq> KNULL \<and> k \<noteq> TOMBSTONE) ks)"

definition pow2 :: "int \<Rightarrow> bool" where
  "pow2 x \<longleftrightarrow> (\<exists>n \<in> {..<nat x}. x = 2 ^ n)"

text \<open>
  The table of a map as \<^verbatim>\<open>make_map\<close>, \<^verbatim>\<open>map_put\<close> and \<^verbatim>\<open>map_remove\<close> leave it: the size is a
  power of two, \<^verbatim>\<open>nused\<close> counts the cells in use and \<^verbatim>\<open>nelem\<close> those that hold a key, and
  one cell at least is null.
\<close>

definition table_ok :: "Map \<Rightarrow> bool" where
  "table_ok m =
     (case key m of
        None \<Rightarrow> nelem m = 0 \<and> nused m = 0
      | Some ks \<Rightarrow>
          (case val m of
             None \<Rightarrow> False
           | Some vs \<Rightarrow>
               pow2 (msize m) \<and> 4 \<le> msize m \<and>
               int (length ks) = msize m \<and> int (length vs) = msize m \<and>
               nused m = int (used_cells ks) \<and> nelem m = int (live_cells ks) \<and>
               nused m < msize m))"

fun map_inv :: "Map \<Rightarrow> bool" where
  "map_inv (Map par ks vs sz ne nu) =
     (table_ok (Map par ks vs sz ne nu) \<and> (case par of None \<Rightarrow> True | Some p \<Rightarrow> map_inv p))"

lemma map_inv_unfold:
  "map_inv m \<longleftrightarrow> table_ok m \<and> (case parent m of None \<Rightarrow> True | Some p \<Rightarrow> map_inv p)"
  by (cases m) simp

lemma pow2D: "pow2 x \<Longrightarrow> \<exists>n. x = 2 ^ n"
  by (auto simp: pow2_def)

lemma pow2_double: "pow2 x \<Longrightarrow> pow2 (x * 2)"
proof -
  assume "pow2 x"
  then obtain n where n: "n < nat x" "x = 2 ^ n" by (auto simp: pow2_def)
  then have "x * 2 = 2 ^ Suc n" "Suc n < nat (x * 2)" by auto
  then show ?thesis unfolding pow2_def by blast
qed

lemma pow2_INIT_SIZE: "pow2 INIT_SIZE"
proof -
  have "(16 :: int) = 2 ^ 4" "4 < nat (16 :: int)" by simp_all
  then show ?thesis unfolding pow2_def INIT_SIZE_def by blast
qed

lemma and_pow2_mask: "x AND (2 ^ n - 1) = x mod 2 ^ n" for x :: int
  by (simp flip: mask_eq_exp_minus_1 take_bit_eq_mask add: take_bit_eq_mod)

lemma next_slot_mod: "next_slot i (2 ^ n - 1) = Suc i mod 2 ^ n"
proof -
  have "int (Suc i mod 2 ^ n) = (int i + 1) mod 2 ^ n" by (simp add: zmod_int add.commute)
  then show ?thesis by (simp add: next_slot_def and_pow2_mask)
qed

lemma slot_of_less: "slot_of k (2 ^ n - 1) < 2 ^ n"
  unfolding slot_of_def and_pow2_mask by (simp add: nat_less_iff)

lemma find_null:
  assumes "KNULL \<in> set ks" and "i < length ks"
  shows "\<exists>d < length ks. ks ! ((i + d) mod length ks) = KNULL"
proof -
  let ?N = "length ks"
  from assms(1) obtain j where j: "j < ?N" "ks ! j = KNULL" by (auto simp: in_set_conv_nth)
  let ?d = "(j + ?N - i) mod ?N"
  have "(i + ?d) mod ?N = (i + (j + ?N - i)) mod ?N" by (simp add: mod_add_right_eq)
  also from assms(2) have "\<dots> = (j + ?N) mod ?N" by simp
  also from j(1) have "\<dots> = j" by simp
  finally have "ks ! ((i + ?d) mod ?N) = KNULL" using j(2) by simp
  moreover from j(1) have "?d < ?N" by (intro mod_less_divisor) auto
  ultimately show ?thesis by blast
qed

lemma used_cells_null: "used_cells ks < length ks \<Longrightarrow> KNULL \<in> set ks"
proof (rule ccontr)
  assume a: "used_cells ks < length ks" and "KNULL \<notin> set ks"
  then have "filter (\<lambda>k. k \<noteq> KNULL) ks = ks" by (auto simp: filter_id_conv)
  with a show False by (simp add: used_cells_def)
qed

lemma probe_step:
  assumes "length ks = 2 ^ n" and "i < length ks" and "ks ! i \<noteq> KNULL"
    and "\<exists>d < Suc fuel. ks ! ((i + d) mod length ks) = KNULL"
  shows "next_slot i (2 ^ n - 1) < length ks \<and>
         (\<exists>d < fuel. ks ! ((next_slot i (2 ^ n - 1) + d) mod length ks) = KNULL)"
proof -
  from assms(4) obtain d where d: "d < Suc fuel" "ks ! ((i + d) mod length ks) = KNULL" by blast
  from d(2) assms(2,3) have "d \<noteq> 0" by (cases d) auto
  then obtain d' where d': "d = Suc d'" by (cases d) auto
  have "(next_slot i (2 ^ n - 1) + d') mod length ks = (Suc i mod length ks + d') mod length ks"
    by (simp add: next_slot_mod assms(1))
  also have "\<dots> = (i + d) mod length ks" by (simp add: mod_add_left_eq d')
  finally have "ks ! ((next_slot i (2 ^ n - 1) + d') mod length ks) = KNULL" using d(2) by simp
  moreover from d(1) d' have "d' < fuel" by simp
  moreover have "next_slot i (2 ^ n - 1) < length ks" by (simp add: next_slot_mod assms(1))
  ultimately show ?thesis by blast
qed

lemma put_probe_total:
  assumes "key m = Some ks" and "length ks = 2 ^ n" and "i < length ks"
    and "\<exists>d < fuel. ks ! ((i + d) mod length ks) = KNULL"
  shows "put_probe m k v (2 ^ n - 1) i fuel \<noteq> None"
  using assms(3,4)
proof (induction fuel arbitrary: i)
  case 0
  then show ?case by simp
next
  case (Suc fuel)
  show ?case
  proof (cases "ks ! i = KNULL \<or> ks ! i = TOMBSTONE \<or> ks ! i = Key k")
    case True
    with assms(1) show ?thesis by (auto simp: Let_def)
  next
    case False
    then have "ks ! i \<noteq> KNULL" by simp
    from probe_step[OF assms(2) Suc.prems(1) this Suc.prems(2)] Suc.IH
    have "put_probe m k v (2 ^ n - 1) (next_slot i (2 ^ n - 1)) fuel \<noteq> None" by blast
    with False assms(1) show ?thesis by (simp add: Let_def)
  qed
qed

lemma get_probe_total:
  assumes "length ks = 2 ^ n" and "i < length ks"
    and "\<exists>d < fuel. ks ! ((i + d) mod length ks) = KNULL"
  shows "get_probe ks vs k (2 ^ n - 1) i fuel \<noteq> None"
  using assms(2,3)
proof (induction fuel arbitrary: i)
  case 0
  then show ?case by simp
next
  case (Suc fuel)
  show ?case
  proof (cases "ks ! i = KNULL \<or> ks ! i = Key k")
    case True
    then show ?thesis by auto
  next
    case False
    then have "ks ! i \<noteq> KNULL" by simp
    from probe_step[OF assms(1) Suc.prems(1) this Suc.prems(2)] Suc.IH
    have "get_probe ks vs k (2 ^ n - 1) (next_slot i (2 ^ n - 1)) fuel \<noteq> None" by blast
    with False show ?thesis by (cases "ks ! i") auto
  qed
qed

lemma remove_probe_total:
  assumes "key m = Some ks" and "val m = Some vs" and "length ks = 2 ^ n" and "i < length ks"
    and "\<exists>d < fuel. ks ! ((i + d) mod length ks) = KNULL"
  shows "\<exists>m'. remove_probe m k (2 ^ n - 1) i fuel = Some m' \<and>
           (m' = m \<or>
            (\<exists>j < length ks. ks ! j = Key k \<and>
               m' = Map (parent m) (Some (ks[j := TOMBSTONE])) (Some (vs[j := NULL])) (msize m)
                      (nelem m - 1) (nused m)))"
  using assms(4,5)
proof (induction fuel arbitrary: i)
  case 0
  then show ?case by simp
next
  case (Suc fuel)
  show ?case
  proof (cases "ks ! i = KNULL \<or> ks ! i = Key k")
    case True
    with assms(1,2) Suc.prems(1) show ?thesis by (auto simp: Let_def)
  next
    case False
    then have "ks ! i \<noteq> KNULL" by simp
    from probe_step[OF assms(3) Suc.prems(1) this Suc.prems(2)] Suc.IH
    have "\<exists>m'. remove_probe m k (2 ^ n - 1) (next_slot i (2 ^ n - 1)) fuel = Some m' \<and>
           (m' = m \<or>
            (\<exists>j < length ks. ks ! j = Key k \<and>
               m' = Map (parent m) (Some (ks[j := TOMBSTONE])) (Some (vs[j := NULL])) (msize m)
                      (nelem m - 1) (nused m)))" by blast
    with False assms(1,2) show ?thesis by (simp add: Let_def)
  qed
qed

lemma rehash_probe_total:
  assumes "length ks = 2 ^ n" and "i < length ks"
    and "\<exists>d < fuel. ks ! ((i + d) mod length ks) = KNULL"
  shows "\<exists>j < length ks. rehash_probe ks (2 ^ n - 1) i fuel = Some j \<and> ks ! j = KNULL"
  using assms(2,3)
proof (induction fuel arbitrary: i)
  case 0
  then show ?case by simp
next
  case (Suc fuel)
  show ?case
  proof (cases "ks ! i = KNULL")
    case True
    with Suc.prems(1) show ?thesis by auto
  next
    case False
    from probe_step[OF assms(1) Suc.prems(1) False Suc.prems(2)] Suc.IH
    have "\<exists>j < length ks. rehash_probe ks (2 ^ n - 1) (next_slot i (2 ^ n - 1)) fuel = Some j \<and>
            ks ! j = KNULL" by blast
    with False show ?thesis by simp
  qed
qed


subsection \<open>The counters\<close>

lemma count_update:
  assumes "i < length xs"
  shows "length (filter P (xs[i := x])) + (if P (xs ! i) then 1 else 0) =
         length (filter P xs) + (if P x then 1 else 0)"
proof -
  have a: "xs[i := x] = take i xs @ [x] @ drop (Suc i) xs"
    using assms by (simp add: upd_conv_take_nth_drop)
  have b: "xs = take i xs @ [xs ! i] @ drop (Suc i) xs"
    using assms by (simp add: id_take_nth_drop)
  have "length (filter P xs) = length (filter P (take i xs @ [xs ! i] @ drop (Suc i) xs))"
    using b by simp
  then show ?thesis unfolding a by simp
qed

lemma count_update_int:
  assumes "i < length xs"
  shows "int (length (filter P (xs[i := x]))) =
         int (length (filter P xs)) - (if P (xs ! i) then 1 else 0) + (if P x then 1 else 0)"
  using count_update[OF assms, of P x] by (auto split: if_splits)

lemma used_cells_update:
  "i < length ks \<Longrightarrow>
   int (used_cells (ks[i := x])) =
     int (used_cells ks) - (if ks ! i \<noteq> KNULL then 1 else 0) + (if x \<noteq> KNULL then 1 else 0)"
  unfolding used_cells_def by (rule count_update_int)

lemma live_cells_update:
  "i < length ks \<Longrightarrow>
   int (live_cells (ks[i := x])) =
     int (live_cells ks) - (if ks ! i \<noteq> KNULL \<and> ks ! i \<noteq> TOMBSTONE then 1 else 0) +
       (if x \<noteq> KNULL \<and> x \<noteq> TOMBSTONE then 1 else 0)"
  unfolding live_cells_def by (rule count_update_int)

lemma cells_replicate [simp]:
  "used_cells (replicate n KNULL) = 0" "live_cells (replicate n KNULL) = 0"
  by (simp_all add: used_cells_def live_cells_def)

lemma live_le_used: "live_cells ks \<le> used_cells ks"
proof -
  have "filter (\<lambda>k. k \<noteq> KNULL \<and> k \<noteq> TOMBSTONE) ks =
        filter (\<lambda>k. k \<noteq> TOMBSTONE) (filter (\<lambda>k. k \<noteq> KNULL) ks)"
    by (simp add: conj_commute)
  then show ?thesis unfolding live_cells_def used_cells_def by (metis length_filter_le)
qed

lemma used_le_length: "used_cells ks \<le> length ks"
  by (simp add: used_cells_def)

text \<open>The rehash loop fills a table that has room for the keys.\<close>

lemma rehash_loop_total:
  assumes "length k = 2 ^ n" and "length v = 2 ^ n"
    and "used_cells k + live_cells (map fst xs) < 2 ^ n" and "live_cells k = used_cells k"
  shows "\<exists>k' v'. rehash_loop xs (2 ^ n - 1) (k, v) = Some (k', v') \<and>
           length k' = 2 ^ n \<and> length v' = 2 ^ n \<and>
           used_cells k' = used_cells k + live_cells (map fst xs) \<and>
           live_cells k' = used_cells k'"
  using assms
proof (induction xs arbitrary: k v)
  case Nil
  then show ?case by (simp add: live_cells_def)
next
  case (Cons x xs)
  obtain ki vi where x: "x = (ki, vi)" by (cases x)
  show ?case
  proof (cases ki)
    case KNULL
    with x Cons.prems have "used_cells k + live_cells (map fst xs) < 2 ^ n"
      by (simp add: live_cells_def)
    from Cons.IH[OF Cons.prems(1,2) this Cons.prems(4)] KNULL x show ?thesis
      by (simp add: live_cells_def)
  next
    case TOMBSTONE
    with x Cons.prems have "used_cells k + live_cells (map fst xs) < 2 ^ n"
      by (simp add: live_cells_def)
    from Cons.IH[OF Cons.prems(1,2) this Cons.prems(4)] TOMBSTONE x show ?thesis
      by (simp add: live_cells_def)
  next
    case (Key s)
    with x have l: "live_cells (map fst (x # xs)) = Suc (live_cells (map fst xs))"
      by (simp add: live_cells_def)
    with Cons.prems(1,3) have "used_cells k < length k" by simp
    from find_null[OF used_cells_null[OF this], of "slot_of s (2 ^ n - 1)"] Cons.prems(1)
    have "\<exists>d < length k. k ! ((slot_of s (2 ^ n - 1) + d) mod length k) = KNULL"
      by (simp add: slot_of_less)
    from rehash_probe_total[OF Cons.prems(1) _ this] Cons.prems(1)
    obtain j where j: "j < length k"
      "rehash_probe k (2 ^ n - 1) (slot_of s (2 ^ n - 1)) (length k) = Some j" "k ! j = KNULL"
      by (auto simp: slot_of_less)
    let ?k = "k[j := ki]" and ?v = "v[j := vi]"
    from j Key have u: "used_cells ?k = Suc (used_cells k)"
      using used_cells_update[OF j(1), of ki] by simp
    from j Key have lv: "live_cells ?k = Suc (live_cells k)"
      using live_cells_update[OF j(1), of ki] by simp
    have p3: "used_cells ?k + live_cells (map fst xs) < 2 ^ n"
      using Cons.prems(3) l u by simp
    have p4: "live_cells ?k = used_cells ?k" using u lv Cons.prems(4) by simp
    from Cons.IH[of ?k ?v, OF _ _ p3 p4] Cons.prems(1,2)
    obtain k' v' where "rehash_loop xs (2 ^ n - 1) (?k, ?v) = Some (k', v')"
      "length k' = 2 ^ n" "length v' = 2 ^ n"
      "used_cells k' = used_cells ?k + live_cells (map fst xs)" "live_cells k' = used_cells k'"
      by auto
    with x Key j(2) u l show ?thesis by simp
  qed
qed


subsection \<open>The operations return\<close>

lemma table_okD:
  assumes "table_ok m" and "key m = Some ks"
  shows "\<exists>vs n. val m = Some vs \<and> msize m = 2 ^ n \<and> length ks = 2 ^ n \<and> length vs = 2 ^ n \<and>
           4 \<le> msize m \<and> pow2 (msize m) \<and>
           nused m = int (used_cells ks) \<and> nelem m = int (live_cells ks) \<and> nused m < msize m"
proof -
  from assms obtain vs where vs: "val m = Some vs" and p: "pow2 (msize m)"
    and r: "4 \<le> msize m" "int (length ks) = msize m" "int (length vs) = msize m"
      "nused m = int (used_cells ks)" "nelem m = int (live_cells ks)" "nused m < msize m"
    by (auto simp: table_ok_def split: option.splits)
  from pow2D[OF p] obtain n where n: "msize m = 2 ^ n" ..
  with r(2,3) have "length ks = 2 ^ n" "length vs = 2 ^ n" by simp_all
  with vs p r n show ?thesis by blast
qed

lemma maybe_rehash_ok:
  assumes "table_ok m"
  shows "\<exists>m1. maybe_rehash m = Some m1 \<and> table_ok m1 \<and> key m1 \<noteq> None \<and>
           nused m1 + 1 < msize m1 \<and> parent m1 = parent m \<and> nelem m1 = nelem m"
proof (cases "key m")
  case None
  with assms pow2_INIT_SIZE show ?thesis
    by (simp add: maybe_rehash_def table_ok_def calloc_def INIT_SIZE_def)
next
  case (Some ks)
  from table_okD[OF assms Some] obtain vs n where t: "val m = Some vs" "msize m = 2 ^ n"
    "length ks = 2 ^ n" "length vs = 2 ^ n" "4 \<le> msize m" "pow2 (msize m)"
    "nused m = int (used_cells ks)" "nelem m = int (live_cells ks)" "nused m < msize m"
    by blast
  show ?thesis
  proof (cases "10 * nused m < 7 * msize m")
    case True
    with Some assms t(5) show ?thesis by (simp add: maybe_rehash_def)
  next
    case False
    let ?new = "if 20 * nelem m < 7 * msize m then msize m else msize m * 2"
    have pn: "pow2 ?new" using t(6) pow2_double by simp
    from pow2D[OF pn] obtain n' where n': "?new = 2 ^ n'" ..
    have le: "nelem m \<le> msize m"
      using live_le_used[of ks] used_le_length[of ks] t(2,3,8) by simp
    have room: "nelem m + 1 < ?new" using le t(5) by (auto split: if_splits)
    let ?xs = "take (nat (msize m)) (zip ks vs)"
    have xs: "map fst ?xs = ks" using t(2,3,4) by simp
    let ?k0 = "calloc ?new KNULL" and ?v0 = "calloc ?new NULL"
    have l0: "length ?k0 = 2 ^ n'" "length ?v0 = 2 ^ n'"
      unfolding calloc_def n' by simp_all
    have c0: "used_cells (calloc z KNULL) = 0" "live_cells (calloc z KNULL) = 0" for z
      by (simp_all add: calloc_def)
    from room t(8) have "int (live_cells ks) < 2 ^ n'" unfolding n' by linarith
    then have "live_cells ks < 2 ^ n'" by simp
    then have fit: "used_cells ?k0 + live_cells (map fst ?xs) < 2 ^ n'"
      unfolding xs c0 by simp
    from rehash_loop_total[OF l0 fit] c0
    obtain k' v' where r: "rehash_loop ?xs (2 ^ n' - 1) (?k0, ?v0) = Some (k', v')"
      and l: "length k' = 2 ^ n'" "length v' = 2 ^ n'"
      and u: "used_cells k' = used_cells ?k0 + live_cells (map fst ?xs)"
        "live_cells k' = used_cells k'"
      by auto
    from u xs c0 t(8) have cnt: "int (used_cells k') = nelem m" "int (live_cells k') = nelem m"
      by simp_all
    let ?m1 = "Map (parent m) (Some k') (Some v') ?new (nelem m) (nelem m)"
    from False Some t(1) r n' have "maybe_rehash m = Some ?m1"
      by (simp add: maybe_rehash_def Let_def)
    moreover have "table_ok ?m1"
      using pn t(5) l cnt room n' by (auto simp: table_ok_def split: if_splits)
    moreover have "nused ?m1 + 1 < msize ?m1" using room by simp
    ultimately show ?thesis by simp
  qed
qed

lemma map_put_total:
  assumes "table_ok m"
  shows "\<exists>m'. map_put m k v = Some m' \<and> table_ok m' \<and> parent m' = parent m"
proof -
  from maybe_rehash_ok[OF assms] obtain m1 where m1: "maybe_rehash m = Some m1"
    and ok: "table_ok m1" and ne: "key m1 \<noteq> None" and room: "nused m1 + 1 < msize m1"
    and par: "parent m1 = parent m"
    by blast
  from ne obtain ks where ks: "key m1 = Some ks" by auto
  from table_okD[OF ok ks] obtain vs n where t: "val m1 = Some vs" "msize m1 = 2 ^ n"
    "length ks = 2 ^ n" "length vs = 2 ^ n" "4 \<le> msize m1"
    "nused m1 = int (used_cells ks)" "nelem m1 = int (live_cells ks)" "nused m1 < msize m1"
    by blast
  let ?i = "slot_of k (2 ^ n - 1)"
  have i: "?i < length ks" by (simp add: t(3) slot_of_less)
  from t(2,3,6,8) have "used_cells ks < length ks" by simp
  from find_null[OF used_cells_null[OF this] i]
  have "put_probe m1 k v (2 ^ n - 1) ?i (length ks) \<noteq> None"
    by (rule put_probe_total[OF ks t(3) i])
  then obtain m' where put: "put_probe m1 k v (2 ^ n - 1) ?i (length ks) = Some m'" by auto
  have "int (length ks) = 2 ^ n - 1 + 1" "length vs = length ks" "(0 :: int) \<le> 2 ^ n - 1"
    using t(3,4) by simp_all
  from put_probe_get[OF put ks t(1) this(3,1,2) i]
  obtain j where j: "j < length ks" "ks ! j \<in> {KNULL, TOMBSTONE, Key k}"
    and m': "m' = Map (parent m1) (Some (ks[j := Key k])) (Some (vs[j := v])) (msize m1)
                  (if ks ! j = Key k then nelem m1 else nelem m1 + 1)
                  (if ks ! j = KNULL then nused m1 + 1 else nused m1)"
    by blast
  have "table_ok m'"
    unfolding m' table_ok_def
    using j t room ok ks used_cells_update[OF j(1), of "Key k"] live_cells_update[OF j(1), of "Key k"]
    by (auto simp: table_ok_def)
  moreover from m1 put ks t(2) have "map_put m k v = Some m'"
    by (simp add: map_put_def Let_def)
  ultimately show ?thesis using par by (simp add: m')
qed

lemma map_remove_total:
  assumes "table_ok m"
  shows "\<exists>m'. map_remove m k = Some m' \<and> table_ok m' \<and> parent m' = parent m"
proof (cases "key m")
  case None
  with assms show ?thesis by (simp add: map_remove_def)
next
  case (Some ks)
  from table_okD[OF assms Some] obtain vs n where t: "val m = Some vs" "msize m = 2 ^ n"
    "length ks = 2 ^ n" "length vs = 2 ^ n" "4 \<le> msize m"
    "nused m = int (used_cells ks)" "nelem m = int (live_cells ks)" "nused m < msize m"
    by blast
  let ?i = "slot_of k (2 ^ n - 1)"
  have i: "?i < length ks" by (simp add: t(3) slot_of_less)
  from t(2,3,6,8) have "used_cells ks < length ks" by simp
  from remove_probe_total[OF Some t(1,3) i find_null[OF used_cells_null[OF this] i], of k]
  obtain m' where r: "remove_probe m k (2 ^ n - 1) ?i (length ks) = Some m'"
    and m': "m' = m \<or>
            (\<exists>j < length ks. ks ! j = Key k \<and>
               m' = Map (parent m) (Some (ks[j := TOMBSTONE])) (Some (vs[j := NULL])) (msize m)
                      (nelem m - 1) (nused m))"
    by blast
  from r Some t(2) have "map_remove m k = Some m'" by (simp add: map_remove_def Let_def)
  moreover from m' have "table_ok m' \<and> parent m' = parent m"
  proof
    assume "m' = m"
    with assms show ?thesis by simp
  next
    assume "\<exists>j < length ks. ks ! j = Key k \<and>
               m' = Map (parent m) (Some (ks[j := TOMBSTONE])) (Some (vs[j := NULL])) (msize m)
                      (nelem m - 1) (nused m)"
    then obtain j where j: "j < length ks" "ks ! j = Key k"
      and e: "m' = Map (parent m) (Some (ks[j := TOMBSTONE])) (Some (vs[j := NULL])) (msize m)
                      (nelem m - 1) (nused m)"
      by blast
    show ?thesis
      unfolding e table_ok_def
      using j t assms Some used_cells_update[OF j(1), of TOMBSTONE]
        live_cells_update[OF j(1), of TOMBSTONE]
      by (auto simp: table_ok_def)
  qed
  ultimately show ?thesis by blast
qed

lemma map_get_nostack_total:
  assumes "table_ok m"
  shows "\<exists>r. map_get_nostack m k = Some r"
proof (cases "key m")
  case None
  then show ?thesis by (simp add: map_get_nostack_def)
next
  case (Some ks)
  from table_okD[OF assms Some] obtain vs n where t: "val m = Some vs" "msize m = 2 ^ n"
    "length ks = 2 ^ n" "nused m = int (used_cells ks)" "nused m < msize m"
    by blast
  let ?i = "slot_of k (2 ^ n - 1)"
  have i: "?i < length ks" by (simp add: t(3) slot_of_less)
  from t(2,3,4,5) have "used_cells ks < length ks" by simp
  from get_probe_total[OF t(3) i find_null[OF used_cells_null[OF this] i], of vs k]
  show ?thesis using Some t(1,2) by (auto simp: map_get_nostack_def Let_def)
qed

lemma map_get_total: "map_inv m \<Longrightarrow> \<exists>r. map_get m k = Some r"
proof (induction m k rule: map_get.induct)
  case (1 par ks vs sz ne nu k)
  let ?m = "Map par ks vs sz ne nu"
  from "1.prems" have ok: "table_ok ?m" by simp
  from map_get_nostack_total[OF ok, of k] obtain r where r: "map_get_nostack ?m k = Some r" ..
  show ?case
  proof (cases "r \<noteq> NULL")
    case True
    with r show ?thesis by simp
  next
    case False
    show ?thesis
    proof (cases par)
      case None
      with r False show ?thesis by simp
    next
      case (Some p)
      with "1.prems" have "map_inv p" by simp
      from "1.IH"[OF r _ Some this] False obtain r' where "map_get p k = Some r'" by auto
      with r False Some show ?thesis by simp
    qed
  qed
qed

lemma map_inv_make_map: "map_inv make_map"
  using pow2_INIT_SIZE
  by (simp add: make_map_def do_make_map_def table_ok_def calloc_def INIT_SIZE_def)

lemma map_inv_make_map_parent: "map_inv p \<Longrightarrow> map_inv (make_map_parent p)"
  using pow2_INIT_SIZE
  by (simp add: make_map_parent_def do_make_map_def table_ok_def calloc_def INIT_SIZE_def)

lemma map_inv_put:
  assumes "map_inv m"
  shows "\<exists>m'. map_put m k v = Some m' \<and> map_inv m' \<and> parent m' = parent m"
proof -
  from assms have "table_ok m" by (simp add: map_inv_unfold)
  from map_put_total[OF this, of k v] obtain m' where
    m': "map_put m k v = Some m'" "table_ok m'" "parent m' = parent m" by blast
  with assms have "map_inv m'" by (simp add: map_inv_unfold[of m'] map_inv_unfold[of m])
  with m' show ?thesis by blast
qed

lemma map_inv_remove:
  assumes "map_inv m"
  shows "\<exists>m'. map_remove m k = Some m' \<and> map_inv m' \<and> parent m' = parent m"
proof -
  from assms have "table_ok m" by (simp add: map_inv_unfold)
  from map_remove_total[OF this, of k] obtain m' where
    m': "map_remove m k = Some m'" "table_ok m'" "parent m' = parent m" by blast
  with assms have "map_inv m'" by (simp add: map_inv_unfold[of m'] map_inv_unfold[of m])
  with m' show ?thesis by blast
qed

lemma table_ok_wf: "table_ok m \<Longrightarrow> map_wf m"
  by (auto simp: table_ok_def map_wf_def split: option.splits)

lemma map_put_get:
  assumes "map_inv m" and "v \<noteq> NULL"
  shows "\<exists>m'. map_put m k v = Some m' \<and> map_inv m' \<and> map_get m' k = Some v"
proof -
  from map_inv_put[OF assms(1), of k v] obtain m' where
    m': "map_put m k v = Some m'" "map_inv m'" by blast
  from assms(1) have "map_wf m" by (simp add: map_inv_unfold table_ok_wf)
  from map_put_get_nostack[OF this m'(1)] assms(2) have "map_get m' k = Some v"
    by (simp add: map_get_unfold[of m'])
  with m' show ?thesis by blast
qed

text \<open>
  C10: a key bound to the null handle looks absent. \<^verbatim>\<open>map_put(m, k, NULL)\<close> returns, and
  after it the lookup of \<open>k\<close> does not stop at that binding: it gives what the parent map
  gives for \<open>k\<close>, or a miss when there is no parent. The binding is there all the same:
  \<open>k\<close> is a live key of the table, and \<^verbatim>\<open>map_len\<close> has counted it when \<open>k\<close> was not a key
  before.
\<close>

theorem map_put_null_falls_through:
  assumes "map_inv m"
  shows "\<exists>m'. map_put m k NULL = Some m' \<and>
           map_get m' k = (case parent m of Some p \<Rightarrow> map_get p k | None \<Rightarrow> Some NULL) \<and>
           map_get m' k \<noteq> None \<and>
           Key k \<in> set (the (key m')) \<and>
           (key m = None \<or> Key k \<notin> set (the (key m)) \<longrightarrow> map_len m' = map_len m + 1)"
proof -
  from map_inv_put[OF assms, of k NULL] obtain m' where
    m': "map_put m k NULL = Some m'" "map_inv m'" by blast
  from assms have "map_wf m" by (simp add: map_inv_unfold table_ok_wf)
  from map_put_get_nostack[OF this m'(1)] map_get_total[OF m'(2), of k] m'(1)
  show ?thesis
    by (auto simp: map_get_unfold[of m'] map_len_def)
qed

theorem map_put_null_falls_through_witness:
  "map_inv (make_map_parent (the (map_put make_map ''x'' 7))) \<and>
   (\<exists>m'. map_put (make_map_parent (the (map_put make_map ''x'' 7))) ''x'' NULL = Some m' \<and>
         map_get m' ''x'' = Some 7 \<and> Key ''x'' \<in> set (the (key m')) \<and> map_len m' = 1)"
proof -
  let ?m = "make_map_parent (the (map_put make_map ''x'' 7))"
  from map_inv_put[OF map_inv_make_map, of "''x''" 7]
  have "map_inv (the (map_put make_map ''x'' 7))" by auto
  then have inv: "map_inv ?m" by (rule map_inv_make_map_parent)
  have absent: "key ?m = None \<or> Key ''x'' \<notin> set (the (key ?m))" by code_simp
  have par: "(case parent ?m of Some p \<Rightarrow> map_get p ''x'' | None \<Rightarrow> Some NULL) = Some 7" by code_simp
  have len: "map_len ?m = 0" by code_simp
  from map_put_null_falls_through[OF inv, of "''x''"] absent par len inv
  show ?thesis by auto
qed

subsection \<open>Sequences of updates\<close>

datatype map_op = Put string ptr | Remove string

fun run_ops :: "Map \<Rightarrow> map_op list \<Rightarrow> Map option" where
  "run_ops m [] = Some m"
| "run_ops m (Put k v # ops) = Option.bind (map_put m k v) (\<lambda>m'. run_ops m' ops)"
| "run_ops m (Remove k # ops) = Option.bind (map_remove m k) (\<lambda>m'. run_ops m' ops)"

text \<open>
  C1: after \<^verbatim>\<open>map_remove(k)\<close> a lookup of \<open>k\<close> is to miss. The keys \<open>a\<close> and \<open>q\<close> share
  the cell 12 of a fresh table. With \<open>a\<close> removed, its cell is a tombstone in front of the
  binding of \<open>q\<close>; \<^verbatim>\<open>map_put\<close> stores the next value of \<open>q\<close> in the tombstone without
  looking further, so the table holds \<open>q\<close> twice, \<^verbatim>\<open>map_remove\<close> deletes the first copy
  only, and the lookup returns the older value 2.
\<close>

theorem map_remove_leaves_stale_binding:
  "Option.bind
     (run_ops make_map [Put ''a'' 1, Put ''q'' 2, Remove ''a'', Put ''q'' 3, Remove ''q''])
     (\<lambda>m. map_get m ''q'') = Some 2"
  by code_simp

section \<open>The growable byte buffer\<close>

text \<open>
  \<^verbatim>\<open>struct Buffer\<close>. \<open>body\<close> is the list of the \<^verbatim>\<open>len\<close> bytes written so far (the cells
  \<open>0 .. len - 1\<close> of the allocated block); the other \<^verbatim>\<open>nalloc - len\<close> cells hold nothing that
  is read. \<^verbatim>\<open>buf_body\<close> gives the block to be read as a C string: \<^verbatim>\<open>vsnprintf\<close> leaves a NUL
  behind the bytes it has written.
\<close>

record Buffer =
  body :: string
  nalloc :: int
  len :: int

definition BUF_INIT_SIZE :: int where
  "BUF_INIT_SIZE = 8"

definition make_buffer :: Buffer where
  "make_buffer = \<lparr>body = [], nalloc = BUF_INIT_SIZE, len = 0\<rparr>"

definition realloc_body :: "Buffer \<Rightarrow> Buffer" where
  "realloc_body b = (let newsize = nalloc b * 2 in b\<lparr>body := take (nat (len b)) (body b), nalloc := newsize\<rparr>)"

definition buf_body :: "Buffer \<Rightarrow> string" where
  "buf_body b = body b"

definition buf_len :: "Buffer \<Rightarrow> int" where
  "buf_len b = len b"

definition buf_write :: "Buffer \<Rightarrow> char \<Rightarrow> Buffer" where
  "buf_write b0 c =
     (let b = (if nalloc b0 = len b0 + 1 then realloc_body b0 else b0)
      in b\<lparr>body := body b @ [c], len := len b + 1\<rparr>)"

fun buf_append :: "Buffer \<Rightarrow> string \<Rightarrow> Buffer" where
  "buf_append b [] = b"
| "buf_append b (c # s) = buf_append (buf_write b c) s"

text \<open>
  The three calls of \<^verbatim>\<open>buf_printf\<close> that \<^verbatim>\<open>print\<close> makes, and the text \<^verbatim>\<open>vsnprintf\<close> formats
  for each. \<^verbatim>\<open>%c\<close> writes its \<^verbatim>\<open>int\<close> argument converted to \<^verbatim>\<open>unsigned char\<close>; \<^verbatim>\<open>%02x\<close> reads
  its argument as an \<^verbatim>\<open>unsigned int\<close> and writes it in hexadecimal, padded with zeros to
  two digits at least.
\<close>

datatype printf_call = Fmt_s string | Fmt_c int | Fmt_x02x int

definition hexdigit :: "int \<Rightarrow> char" where
  "hexdigit n = ''0123456789abcdef'' ! nat n"

function hex_of :: "int \<Rightarrow> string" where
  "hex_of n = (if n < 16 then [hexdigit n] else hex_of (n div 16) @ [hexdigit (n mod 16)])"
  by pat_completeness auto
termination
  by (relation "measure nat") auto

definition fmt_02x :: "int \<Rightarrow> string" where
  "fmt_02x v = (let s = hex_of (v mod 2 ^ 32) in replicate (2 - length s) CHR ''0'' @ s)"

fun formatted :: "printf_call \<Rightarrow> string" where
  "formatted (Fmt_s q) = q"
| "formatted (Fmt_c c) = [int_char c]"
| "formatted (Fmt_x02x c) = [CHR 0x5C, CHR ''x''] @ fmt_02x c"

text \<open>
  \<^verbatim>\<open>buf_printf\<close>: format into the free cells; when the text does not fit with its NUL, double
  the block and format again. A block of no cells never grows, and the loop does not end
  (\<open>None\<close>).
\<close>

function buf_printf :: "Buffer \<Rightarrow> printf_call \<Rightarrow> Buffer option" where
  "buf_printf b call =
     (let avail = nalloc b - len b;
          written = int (length (formatted call))
      in if avail \<le> written
         then (if nalloc b \<le> 0 then None else buf_printf (realloc_body b) call)
         else Some (b\<lparr>body := take (nat (len b)) (body b) @ formatted call, len := len b + written\<rparr>))"
  by pat_completeness auto
termination
  by (relation "measure (\<lambda>(b, call). nat (len b + int (length (formatted call)) + 1 - nalloc b))")
     (auto simp: realloc_body_def Let_def)

text \<open>\<^verbatim>\<open>quote\<close>: the escape of a character, or \<open>None\<close> for the null pointer.\<close>

definition quote :: "char \<Rightarrow> string option" where
  "quote c =
     (if c = CHR 0x22 then Some [CHR 0x5C, CHR 0x22]
      else if c = CHR 0x5C then Some [CHR 0x5C, CHR 0x5C]
      else if c = CHR 0x08 then Some [CHR 0x5C, CHR ''b'']
      else if c = CHR 0x0C then Some [CHR 0x5C, CHR ''f'']
      else if c = CHR 0x0A then Some [CHR 0x5C, CHR ''n'']
      else if c = CHR 0x0D then Some [CHR 0x5C, CHR ''r'']
      else if c = CHR 0x09 then Some [CHR 0x5C, CHR ''t'']
      else None)"

text \<open>\<^verbatim>\<open>isprint\<close> in the C locale, which the compiler never changes.\<close>

definition isprint :: "int \<Rightarrow> bool" where
  "isprint c = (32 \<le> c \<and> c \<le> 126)"

text \<open>
  \<^verbatim>\<open>print\<close>. Its parameter is a \<^verbatim>\<open>char\<close>; passed to \<^verbatim>\<open>isprint\<close> and to the variadic
  \<^verbatim>\<open>buf_printf\<close> it is promoted to \<^verbatim>\<open>int\<close>.
\<close>

definition print :: "Buffer \<Rightarrow> char \<Rightarrow> Buffer option" where
  "print b c =
     (case quote c of
        Some q \<Rightarrow> buf_printf b (Fmt_s q)
      | None \<Rightarrow>
          if isprint (schar_int c) then buf_printf b (Fmt_c (schar_int c))
          else buf_printf b (Fmt_x02x (schar_int c)))"

text \<open>The loops of \<^verbatim>\<open>quote_cstring\<close> and \<^verbatim>\<open>quote_cstring_len\<close> over the bytes of the input.\<close>

fun print_all :: "Buffer \<Rightarrow> string \<Rightarrow> Buffer option" where
  "print_all b [] = Some b"
| "print_all b (c # p) = Option.bind (print b c) (\<lambda>b'. print_all b' p)"

text \<open>
  What a caller reads at the pointer that \<^verbatim>\<open>buf_body\<close> returns for a buffer that only
  \<^verbatim>\<open>buf_printf\<close> has filled: the text printed, behind which \<^verbatim>\<open>vsnprintf\<close> has left a NUL;
  or, when nothing has been printed, the cells of the block as \<^verbatim>\<open>malloc\<close> has returned
  it, which nothing has written.
\<close>

datatype c_string = Text string | Uninitialised

definition printed_text :: "Buffer \<Rightarrow> c_string" where
  "printed_text b = (if len b = 0 then Uninitialised else Text (buf_body b))"

text \<open>
  \<^verbatim>\<open>quote_cstring\<close> reads its argument up to the first NUL; \<^verbatim>\<open>quote_cstring_len\<close> reads
  \<^verbatim>\<open>len\<close> bytes of it, whatever they are.
\<close>

definition quote_cstring :: "string \<Rightarrow> c_string option" where
  "quote_cstring p =
     map_option printed_text (print_all make_buffer (takeWhile (\<lambda>c. c \<noteq> CHR 0x00) p))"

definition quote_cstring_len :: "string \<Rightarrow> int \<Rightarrow> c_string option" where
  "quote_cstring_len p n = map_option printed_text (print_all make_buffer (take (nat n) p))"

definition quote_char :: "char \<Rightarrow> string" where
  "quote_char c =
     (if c = CHR 0x5C then [CHR 0x5C, CHR 0x5C]
      else if c = CHR 0x27 then [CHR 0x5C, CHR 0x27]
      else [c])"


subsection \<open>Properties of the quoting helpers\<close>

lemma buf_printf_appends:
  "0 < nalloc b \<Longrightarrow> len b = int (length (body b)) \<Longrightarrow>
   \<exists>b'. buf_printf b call = Some b' \<and> body b' = body b @ formatted call \<and>
        len b' = int (length (body b')) \<and> 0 < nalloc b'"
proof (induction b call rule: buf_printf.induct)
  case (1 b call)
  show ?case
  proof (cases "nalloc b - len b \<le> int (length (formatted call))")
    case True
    let ?b = "realloc_body b"
    have r: "0 < nalloc ?b" "len ?b = int (length (body ?b))" "body ?b = body b"
      using "1.prems" by (simp_all add: realloc_body_def Let_def)
    from "1.prems" True have "\<not> nalloc b \<le> 0" by simp
    from "1.IH"[OF refl refl True this r(1,2)] r(3) True "1.prems"(1)
    show ?thesis
      by (subst buf_printf.simps) (auto simp: Let_def)
  next
    case False
    with "1.prems" show ?thesis
      by (subst buf_printf.simps) (auto simp: Let_def)
  qed
qed

text \<open>The text that \<^verbatim>\<open>print\<close> adds for one character.\<close>

definition printed :: "char \<Rightarrow> string" where
  "printed c =
     (case quote c of
        Some q \<Rightarrow> q
      | None \<Rightarrow> if isprint (schar_int c) then [int_char (schar_int c)]
                else [CHR 0x5C, CHR ''x''] @ fmt_02x (schar_int c))"

lemma print_appends:
  assumes "0 < nalloc b" and "len b = int (length (body b))"
  shows "\<exists>b'. print b c = Some b' \<and> body b' = body b @ printed c \<and>
           len b' = int (length (body b')) \<and> 0 < nalloc b'"
proof (cases "quote c")
  case None
  show ?thesis
  proof (cases "isprint (schar_int c)")
    case True
    with None buf_printf_appends[OF assms, of "Fmt_c (schar_int c)"] show ?thesis
      by (simp add: print_def printed_def)
  next
    case False
    with None buf_printf_appends[OF assms, of "Fmt_x02x (schar_int c)"] show ?thesis
      by (simp add: print_def printed_def)
  qed
next
  case (Some q)
  with buf_printf_appends[OF assms, of "Fmt_s q"] show ?thesis
    by (simp add: print_def printed_def)
qed

lemma print_all_appends:
  "0 < nalloc b \<Longrightarrow> len b = int (length (body b)) \<Longrightarrow>
   \<exists>b'. print_all b p = Some b' \<and> body b' = body b @ concat (map printed p) \<and>
        len b' = int (length (body b'))"
proof (induction p arbitrary: b)
  case Nil
  then show ?case by simp
next
  case (Cons c p)
  from print_appends[OF Cons.prems, of c] obtain b1 where
    b1: "print b c = Some b1" "body b1 = body b @ printed c"
        "len b1 = int (length (body b1))" "0 < nalloc b1"
    by blast
  from Cons.IH[OF b1(4,3)] b1(1,2) show ?case by auto
qed

text \<open>
  The result of the two functions: the renderings of the bytes, one after the other;
  nothing that can be read when there is no byte to render.
\<close>

definition rendered :: "string \<Rightarrow> c_string" where
  "rendered p = (if concat (map printed p) = [] then Uninitialised else Text (concat (map printed p)))"

lemma printed_text_rendered:
  assumes "body b = concat (map printed p)" and "len b = int (length (body b))"
  shows "printed_text b = rendered p"
  using assms by (simp add: printed_text_def rendered_def buf_body_def)

lemma print_all_make_buffer:
  "\<exists>b'. print_all make_buffer p = Some b' \<and> printed_text b' = rendered p"
proof -
  have "0 < nalloc make_buffer" "len make_buffer = int (length (body make_buffer))"
    by (simp_all add: make_buffer_def BUF_INIT_SIZE_def)
  from print_all_appends[OF this, of p] obtain b' where
    b': "print_all make_buffer p = Some b'" "body b' = body make_buffer @ concat (map printed p)"
      "len b' = int (length (body b'))"
    by blast
  from b'(2) have "body b' = concat (map printed p)" by (simp add: make_buffer_def)
  from printed_text_rendered[OF this b'(3)] b'(1) show ?thesis by blast
qed

lemma quote_cstring_len_eq:
  "quote_cstring_len p n = Some (rendered (take (nat n) p))"
  using print_all_make_buffer[of "take (nat n) p"]
  by (auto simp: quote_cstring_len_def)

lemma quote_cstring_eq:
  "quote_cstring p = Some (rendered (takeWhile (\<lambda>c. c \<noteq> CHR 0x00) p))"
  using print_all_make_buffer[of "takeWhile (\<lambda>c. c \<noteq> CHR 0x00) p"]
  by (auto simp: quote_cstring_def)

lemma quote_cstring_empty:
  "quote_cstring [] = Some Uninitialised \<and> quote_cstring_len p 0 = Some Uninitialised"
  by (simp add: quote_cstring_eq quote_cstring_len_eq rendered_def)

lemma int_char_schar_int: "int_char (schar_int c) = c"
proof -
  have "char_of (of_char c - (256::int)) = char_of ((of_char c - (256::int)) mod 256)"
    by (simp only: char_of_mod_256)
  also have "\<dots> = c" by simp
  finally show ?thesis
    by (simp add: int_char_def schar_int_def)
qed

text \<open>
  In the ASCII range the rendering of a byte is the one the specification gives: the
  unescaped printable bytes are copied.
\<close>

lemma printed_printable:
  "quote c = None \<Longrightarrow> 32 \<le> (of_char c :: int) \<Longrightarrow> (of_char c :: int) \<le> 126 \<Longrightarrow> printed c = [c]"
  by (simp add: printed_def isprint_def int_char_schar_int) (simp add: schar_int_def)

text \<open>
  C9: a byte that is neither escaped nor printable is to be written as the four characters
  \<^verbatim>\<open>\xHH\<close>. The byte 0x80 is written with ten: the \<^verbatim>\<open>char\<close> is negative, its promotion to
  \<^verbatim>\<open>int\<close> is \<open>-128\<close>, and \<^verbatim>\<open>%02x\<close> prints all eight digits of that \<^verbatim>\<open>unsigned int\<close>.
\<close>

theorem quote_cstring_sign_extends:
  "quote_cstring [CHR 0x80] =
     Some (Text [CHR 0x5C, CHR ''x'', CHR ''f'', CHR ''f'', CHR ''f'', CHR ''f'', CHR ''f'', CHR ''f'',
                 CHR ''8'', CHR ''0'']) \<and>
   quote_cstring_len [CHR 0x80] 1 = quote_cstring [CHR 0x80]"
  by code_simp

section \<open>The character stream\<close>

abbreviation (input) EOF :: int where
  "EOF \<equiv> - 1"

abbreviation (input) NL :: int where
  "NL \<equiv> 10"

abbreviation (input) BACKSLASH :: int where
  "BACKSLASH \<equiv> 92"

text \<open>
  How a call ends when it does not return: \<^verbatim>\<open>error\<close> and the \<^verbatim>\<open>errorp\<close> macro print a
  message and leave the program (\<open>Error\<close>, with the format of the message), a failed
  \<^verbatim>\<open>assert\<close> does the same (\<open>Assertion\<close>, with the asserted expression), and a loop may
  never be left (\<open>Diverges\<close>).
\<close>

datatype error = Error string | Assertion string | Diverges

type_synonym 'a res = "error + 'a"

text \<open>
  \<^verbatim>\<open>struct File\<close>. \<open>filep\<close> is the field \<^verbatim>\<open>file\<close>, the \<^verbatim>\<open>FILE *\<close>: \<open>None\<close> for the null pointer, else the bytes
  that \<^verbatim>\<open>getc\<close> has still to deliver. \<open>pstr\<close> is the pointer \<^verbatim>\<open>p\<close> into a C string: the
  bytes from \<^verbatim>\<open>p\<close> up to the terminating NUL. \<open>lastc\<close> is the field \<^verbatim>\<open>last\<close>. \<open>buf\<close> holds
  the cells \<open>0 .. buflen - 1\<close> of the array \<^verbatim>\<open>buf\<close>, so that \<^verbatim>\<open>buflen\<close> is its length.
\<close>

record File =
  filep :: "string option"
  pstr :: string
  name :: "string option"
  line :: int
  column :: int
  ntok :: int
  lastc :: int
  buf :: "int list"
  mtime :: int

text \<open>
  Modelled from the spec: the number of cells of the pushback array \<^verbatim>\<open>buf\<close>, which the
  header \<^verbatim>\<open>8cc.h\<close> declares (``at most 3 chars may be ungotten at once'').
\<close>

definition BUF_CELLS :: nat where
  "BUF_CELLS = 3"

text \<open>
  The stacks of file.c: the vector \<^verbatim>\<open>files\<close>, whose last element is the current file,
  and the vector \<^verbatim>\<open>stashed\<close> of set-aside vectors.
\<close>

record stream =
  files :: "File list"
  stashed :: "File list list"

text \<open>
  \<^verbatim>\<open>make_file\<close>, given what the opened file holds and the time \<^verbatim>\<open>fstat\<close> reports
  (a failing \<^verbatim>\<open>fstat\<close> is not modelled).
\<close>

definition make_file :: "string \<Rightarrow> string \<Rightarrow> int \<Rightarrow> File" where
  "make_file fp nm mt =
     \<lparr>filep = Some fp, pstr = [], name = Some nm, line = 1, column = 1, ntok = 0, lastc = 0,
      buf = [], mtime = mt\<rparr>"

definition make_file_string :: "string \<Rightarrow> File" where
  "make_file_string s =
     \<lparr>filep = None, pstr = s, name = None, line = 1, column = 1, ntok = 0, lastc = 0,
      buf = [], mtime = 0\<rparr>"

text \<open>\<^verbatim>\<open>getc\<close> and \<^verbatim>\<open>ungetc\<close> of the C library, on the bytes still to be read.\<close>

fun getc :: "string \<Rightarrow> int \<times> string" where
  "getc [] = (EOF, [])"
| "getc (c # fp) = (uchar_int c, fp)"

definition ungetc :: "int \<Rightarrow> string \<Rightarrow> string" where
  "ungetc c fp = (if c = EOF then fp else int_char c # fp)"

definition readc_file :: "File \<Rightarrow> int \<times> File" where
  "readc_file f =
     (let (c, fp) = getc (the (filep f))
      in if c = EOF
         then (let c' = (if lastc f = NL \<or> lastc f = EOF then EOF else NL)
               in (c', f\<lparr>filep := Some fp, lastc := c'\<rparr>))
         else if c = ord CHR 0x0D
         then (let (c2, fp2) = getc fp;
                   fp3 = (if c2 \<noteq> NL then ungetc c2 fp2 else fp2)
               in (NL, f\<lparr>filep := Some fp3, lastc := NL\<rparr>))
         else (c, f\<lparr>filep := Some fp, lastc := c\<rparr>))"

text \<open>\<^verbatim>\<open>*p\<close> for a pointer into a C string: the byte there, NUL at the end of the string.\<close>

fun deref :: "string \<Rightarrow> char" where
  "deref [] = CHR 0x00"
| "deref (c # cs) = c"

definition readc_string :: "File \<Rightarrow> int \<times> File" where
  "readc_string f =
     (if deref (pstr f) = CHR 0x00
      then (let c = (if lastc f = NL \<or> lastc f = EOF then EOF else NL)
            in (c, f\<lparr>lastc := c\<rparr>))
      else if deref (pstr f) = CHR 0x0D
      then (let p1 = tl (pstr f);
                p2 = (if deref p1 = CHR 0x0A then tl p1 else p1)
            in (NL, f\<lparr>pstr := p2, lastc := NL\<rparr>))
      else (let c = schar_int (deref (pstr f))
            in (c, f\<lparr>pstr := tl (pstr f), lastc := c\<rparr>)))"

definition get :: "'a stream_scheme \<Rightarrow> (int \<times> 'a stream_scheme) res" where
  "get s =
     (if files s = [] then Inl (Assertion ''vec->len > 0'')
      else
        let f = last (files s);
            (c, f1) = (if buf f \<noteq> [] then (last (buf f), f\<lparr>buf := butlast (buf f)\<rparr>)
                       else if filep f \<noteq> None then readc_file f
                       else readc_string f);
            f2 = (if c = NL then f1\<lparr>line := line f1 + 1, column := 1\<rparr>
                  else if c \<noteq> EOF then f1\<lparr>column := column f1 + 1\<rparr>
                  else f1)
        in Inr (c, s\<lparr>files := butlast (files s) @ [f2]\<rparr>))"

definition unreadc :: "int \<Rightarrow> 'a stream_scheme \<Rightarrow> 'a stream_scheme res" where
  "unreadc c s =
     (if c = EOF then Inr s
      else if files s = [] then Inl (Assertion ''vec->len > 0'')
      else
        let f = last (files s)
        in if \<not> length (buf f) < BUF_CELLS
           then Inl (Assertion ''f->buflen < sizeof(f->buf) / sizeof(f->buf[0])'')
           else
             let f1 = f\<lparr>buf := buf f @ [c]\<rparr>;
                 f2 = (if c = NL then f1\<lparr>column := 1, line := line f1 - 1\<rparr>
                       else f1\<lparr>column := column f1 - 1\<rparr>)
             in Inr (s\<lparr>files := butlast (files s) @ [f2]\<rparr>))"

text \<open>
  What is left to read: for a file, its unread bytes (counted twice), its pushed-back
  characters and the newline still to be made up at its end; for the stack, all its files.
  Every character that \<^verbatim>\<open>get\<close> delivers makes this number smaller.
\<close>

definition file_left :: "File \<Rightarrow> nat" where
  "file_left f =
     2 * (if filep f = None then length (pstr f) else length (the (filep f))) + length (buf f) +
     (if lastc f = NL \<or> lastc f = EOF then 0 else 1)"

definition stream_left :: "'a stream_scheme \<Rightarrow> nat" where
  "stream_left s = sum_list (map (\<lambda>f. Suc (file_left f)) (files s))"

lemma uchar_int_range: "0 \<le> uchar_int c \<and> uchar_int c < 256"
proof -
  have "(of_char c :: int) mod 256 = of_char c" by simp
  moreover have "0 \<le> (of_char c :: int) mod 256 \<and> (of_char c :: int) mod 256 < 256"
    by (simp del: of_char_mod_256)
  ultimately show ?thesis by (simp add: uchar_int_def)
qed

lemma uchar_int_nonneg: "0 \<le> uchar_int c"
  using uchar_int_range[of c] by simp

lemma readc_file_left':
  assumes "filep f = Some fp"
  shows "buf (snd (readc_file f)) = buf f \<and>
         file_left (snd (readc_file f)) \<le> file_left f \<and>
         (fst (readc_file f) \<noteq> EOF \<longrightarrow> file_left (snd (readc_file f)) < file_left f)"
proof (cases fp)
  case Nil
  with assms show ?thesis
    by (simp add: readc_file_def file_left_def Let_def)
next
  case (Cons c0 rest)
  from uchar_int_nonneg[of c0] have ne: "uchar_int c0 \<noteq> EOF" by simp
  show ?thesis
  proof (cases "uchar_int c0 = ord CHR 0x0D")
    case False
    with ne assms Cons show ?thesis
      by (simp add: readc_file_def file_left_def Let_def)
  next
    case True
    show ?thesis
    proof (cases rest)
      case Nil
      with True ne assms Cons show ?thesis
        by (simp add: readc_file_def file_left_def Let_def ungetc_def)
    next
      case (Cons c1 rest')
      with True ne assms \<open>fp = c0 # rest\<close> show ?thesis
        by (simp add: readc_file_def file_left_def Let_def ungetc_def)
    qed
  qed
qed

lemma readc_file_left:
  "filep f = Some fp \<Longrightarrow> readc_file f = (c, f') \<Longrightarrow>
   buf f' = buf f \<and> file_left f' \<le> file_left f \<and> (c \<noteq> EOF \<longrightarrow> file_left f' < file_left f)"
  using readc_file_left'[of f fp] by simp

lemma readc_string_left':
  assumes "filep f = None"
  shows "buf (snd (readc_string f)) = buf f \<and>
         file_left (snd (readc_string f)) \<le> file_left f \<and>
         (fst (readc_string f) \<noteq> EOF \<longrightarrow> file_left (snd (readc_string f)) < file_left f)"
proof (cases "pstr f")
  case Nil
  with assms show ?thesis
    by (simp add: readc_string_def file_left_def Let_def)
next
  case (Cons c0 rest)
  show ?thesis
  proof (cases "c0 = CHR 0x00")
    case True
    with assms Cons show ?thesis
      by (simp add: readc_string_def file_left_def Let_def)
  next
    case False
    show ?thesis
    proof (cases "c0 = CHR 0x0D")
      case True
      with assms Cons show ?thesis
        by (cases rest) (simp_all add: readc_string_def file_left_def Let_def)
    next
      case nr: False
      with False assms Cons show ?thesis
        by (simp add: readc_string_def file_left_def Let_def)
    qed
  qed
qed

lemma readc_string_left:
  "filep f = None \<Longrightarrow> readc_string f = (c, f') \<Longrightarrow>
   buf f' = buf f \<and> file_left f' \<le> file_left f \<and> (c \<noteq> EOF \<longrightarrow> file_left f' < file_left f)"
  using readc_string_left'[of f] by simp

lemma stream_left_split:
  assumes "files s \<noteq> []"
  shows "stream_left s =
           sum_list (map (\<lambda>f. Suc (file_left f)) (butlast (files s))) +
           Suc (file_left (last (files s)))"
proof -
  have "sum_list (map (\<lambda>f. Suc (file_left f)) (files s)) =
        sum_list (map (\<lambda>f. Suc (file_left f)) (butlast (files s) @ [last (files s)]))"
    by (simp only: append_butlast_last_id[OF assms])
  then show ?thesis by (simp add: stream_left_def)
qed

lemma stream_left_last:
  "files s \<noteq> [] \<Longrightarrow>
   stream_left (s\<lparr>files := butlast (files s) @ [f]\<rparr>) + file_left (last (files s)) =
   stream_left s + file_left f"
  by (simp add: stream_left_split)

text \<open>The character and the file that \<^verbatim>\<open>get\<close> obtains, before the position is advanced.\<close>

definition get_char :: "File \<Rightarrow> int \<times> File" where
  "get_char f =
     (if buf f \<noteq> [] then (last (buf f), f\<lparr>buf := butlast (buf f)\<rparr>)
      else if filep f \<noteq> None then readc_file f
      else readc_string f)"

definition advance :: "int \<Rightarrow> File \<Rightarrow> File" where
  "advance c f1 =
     (if c = NL then f1\<lparr>line := line f1 + 1, column := 1\<rparr>
      else if c \<noteq> EOF then f1\<lparr>column := column f1 + 1\<rparr>
      else f1)"

lemma get_eq:
  "get s =
     (if files s = [] then Inl (Assertion ''vec->len > 0'')
      else Inr (fst (get_char (last (files s))),
                s\<lparr>files := butlast (files s) @
                   [advance (fst (get_char (last (files s)))) (snd (get_char (last (files s))))]\<rparr>))"
  by (simp add: get_def get_char_def advance_def Let_def split_beta)

lemma get_char_left:
  "file_left (snd (get_char f)) \<le> file_left f \<and>
   (fst (get_char f) \<noteq> EOF \<longrightarrow> file_left (snd (get_char f)) < file_left f)"
proof (cases "buf f \<noteq> []")
  case True
  then have "0 < length (buf f)" by simp
  with True show ?thesis by (simp add: get_char_def file_left_def)
next
  case False
  show ?thesis
  proof (cases "filep f")
    case None
    with False readc_string_left'[OF None] show ?thesis by (simp add: get_char_def)
  next
    case (Some fp)
    with False readc_file_left'[OF Some] show ?thesis by (simp add: get_char_def)
  qed
qed

lemma advance_left: "file_left (advance c f) = file_left f"
  by (simp add: advance_def file_left_def)

lemma get_left:
  assumes "get s = Inr (c, s')"
  shows "stream_left s' \<le> stream_left s \<and> (c \<noteq> EOF \<longrightarrow> stream_left s' < stream_left s) \<and>
         length (files s') = length (files s)"
proof -
  from assms have ne: "files s \<noteq> []" by (auto simp: get_eq split: if_splits)
  let ?f = "last (files s)"
  let ?f2 = "advance (fst (get_char ?f)) (snd (get_char ?f))"
  from assms ne have c: "c = fst (get_char ?f)" and s': "s' = s\<lparr>files := butlast (files s) @ [?f2]\<rparr>"
    by (auto simp: get_eq)
  from ne have "0 < length (files s)" by simp
  with stream_left_last[OF ne, of ?f2] get_char_left[of ?f] advance_left[of "fst (get_char ?f)" "snd (get_char ?f)"]
  show ?thesis
    unfolding s' c by auto
qed

lemma unreadc_left:
  assumes "unreadc c s = Inr s'"
  shows "stream_left s' \<le> Suc (stream_left s) \<and> (c = EOF \<longrightarrow> s' = s) \<and>
         length (files s') = length (files s)"
proof (cases "c = EOF")
  case True
  with assms show ?thesis by (simp add: unreadc_def)
next
  case False
  with assms have ne: "files s \<noteq> []" by (auto simp: unreadc_def split: if_splits)
  let ?f = "last (files s)"
  let ?f1 = "?f\<lparr>buf := buf ?f @ [c]\<rparr>"
  let ?f2 = "(if c = NL then ?f1\<lparr>column := 1, line := line ?f1 - 1\<rparr>
                       else ?f1\<lparr>column := column ?f1 - 1\<rparr>)"
  have f2: "file_left ?f2 = Suc (file_left ?f)" by (simp add: file_left_def)
  from assms False ne have s': "s' = s\<lparr>files := butlast (files s) @ [?f2]\<rparr>"
    by (auto simp: unreadc_def Let_def split: if_splits)
  from ne have "0 < length (files s)" by simp
  with stream_left_last[OF ne, of ?f2] f2 False show ?thesis
    unfolding s' by auto
qed

text \<open>
  \<^verbatim>\<open>readc\<close>. \<^verbatim>\<open>close_file\<close> closes the \<^verbatim>\<open>FILE *\<close> of the file that is popped and
  changes nothing that is read later.
\<close>

function readc :: "'a stream_scheme \<Rightarrow> (int \<times> 'a stream_scheme) res" where
  "readc s =
     (case get s of
        Inl e \<Rightarrow> Inl e
      | Inr (c, s1) \<Rightarrow>
          if c = EOF
          then (if length (files s1) = 1 then Inr (c, s1)
                else readc (s1\<lparr>files := butlast (files s1)\<rparr>))
          else if c \<noteq> BACKSLASH then Inr (c, s1)
          else (case get s1 of
                  Inl e \<Rightarrow> Inl e
                | Inr (c2, s2) \<Rightarrow>
                    if c2 = NL then readc s2
                    else (case unreadc c2 s2 of
                            Inl e \<Rightarrow> Inl e
                          | Inr s3 \<Rightarrow> Inr (c, s3))))"
  by pat_completeness auto

lemma stream_left_pop:
  "files s \<noteq> [] \<Longrightarrow> stream_left (s\<lparr>files := butlast (files s)\<rparr>) < stream_left s"
proof -
  assume "files s \<noteq> []"
  then have "files s = butlast (files s) @ [last (files s)]" by simp
  then have "stream_left s = sum_list (map (\<lambda>f. Suc (file_left f)) (butlast (files s) @ [last (files s)]))"
    unfolding stream_left_def by simp
  then show ?thesis by (simp add: stream_left_def)
qed

termination readc
proof (relation "measure stream_left")
  show "wf (measure stream_left)" by simp
next
  fix s :: "'a stream_scheme" and x c s1
  assume g: "get s = Inr x" "(c, s1) = x" and "c = EOF" "length (files s1) \<noteq> 1"
  from g have g': "get s = Inr (c, s1)" by simp
  from g' have "files s \<noteq> []" by (auto simp: get_eq split: if_splits)
  with get_left[OF g'] have "files s1 \<noteq> []" by auto
  from stream_left_pop[OF this] get_left[OF g']
  show "(s1\<lparr>files := butlast (files s1)\<rparr>, s) \<in> measure stream_left" by simp
next
  fix s :: "'a stream_scheme" and x c s1 x' c2 s2
  assume g: "get s = Inr x" "(c, s1) = x" and c: "c \<noteq> EOF"
    and h: "get s1 = Inr x'" "(c2, s2) = x'"
  from g have g': "get s = Inr (c, s1)" by simp
  from h have h': "get s1 = Inr (c2, s2)" by simp
  from get_left[OF g'] get_left[OF h'] c
  show "(s2, s) \<in> measure stream_left" by simp
qed

declare readc.simps [simp del]

lemma readc_left:
  "readc s = Inr (c, s') \<Longrightarrow>
   stream_left s' \<le> stream_left s \<and> (c \<noteq> EOF \<longrightarrow> stream_left s' < stream_left s)"
proof (induction s rule: readc.induct)
  case (1 s)
  from "1.prems" obtain c1 s1 where g: "get s = Inr (c1, s1)"
    by (subst (asm) readc.simps) (auto split: sum.splits)
  note gl = get_left[OF g]
  show ?case
  proof (cases "c1 = EOF")
    case True
    show ?thesis
    proof (cases "length (files s1) = 1")
      case True
      with \<open>c1 = EOF\<close> g "1.prems" gl show ?thesis
        by (subst (asm) readc.simps) auto
    next
      case False
      from g have "files s \<noteq> []" by (auto simp: get_eq split: if_splits)
      with gl have ne: "files s1 \<noteq> []" by auto
      from False \<open>c1 = EOF\<close> g "1.prems"
      have r: "readc (s1\<lparr>files := butlast (files s1)\<rparr>) = Inr (c, s')"
        by (subst (asm) readc.simps) auto
      from "1.IH"(1)[OF g refl \<open>c1 = EOF\<close> False r] stream_left_pop[OF ne] gl
      show ?thesis by auto
    qed
  next
    case False
    show ?thesis
    proof (cases "c1 = BACKSLASH")
      case nb: False
      with False g "1.prems" gl show ?thesis
        by (subst (asm) readc.simps) auto
    next
      case True
      with False g "1.prems" obtain c2 s2 where h: "get s1 = Inr (c2, s2)"
        by (subst (asm) readc.simps) (auto split: sum.splits)
      note hl = get_left[OF h]
      show ?thesis
      proof (cases "c2 = NL")
        case nl: True
        with True False g h "1.prems" have r: "readc s2 = Inr (c, s')"
          by (subst (asm) readc.simps) auto
        from "1.IH"(2)[OF g refl False _ h refl nl r] True gl hl
        show ?thesis by auto
      next
        case nnl: False
        with True False g h "1.prems" obtain s3 where
          u: "unreadc c2 s2 = Inr s3" and res: "c = c1" "s' = s3"
          by (subst (asm) readc.simps) (auto split: sum.splits)
        from unreadc_left[OF u] gl hl False res show ?thesis
          by (cases "c2 = EOF") auto
      qed
    qed
  qed
qed

section \<open>The lexer\<close>

subsection \<open>Sequencing of calls that may fail\<close>

fun bindr :: "'a res \<Rightarrow> ('a \<Rightarrow> 'b res) \<Rightarrow> 'b res" where
  "bindr (Inl e) f = Inl e"
| "bindr (Inr x) f = f x"

lemma bindr_cong [fundef_cong]:
  "m = m' \<Longrightarrow> (\<And>x. m' = Inr x \<Longrightarrow> f x = g x) \<Longrightarrow> bindr m f = bindr m' g"
  by (cases m') auto

lemma bindr_Inr_iff:
  "bindr m f = Inr y \<longleftrightarrow> (\<exists>x. m = Inr x \<and> f x = Inr y)"
  by (cases m) auto

subsection \<open>Tokens\<close>

text \<open>
  Modelled from the spec: the enumerations of the header \<^verbatim>\<open>8cc.h\<close>, which is not among the
  sources: the kinds of token, the encodings of literals, and the identifiers of the
  keywords. A punctuator of a single character has the code of the character as its
  identifier (\<open>Punct\<close>); the operators of several characters have identifiers of their
  own, different from every character.
\<close>

datatype token_kind =
  TIDENT | TKEYWORD | TNUMBER | TCHAR | TSTRING | TEOF | TINVALID | TNEWLINE | TSPACE

datatype encoding = ENC_NONE | ENC_CHAR16 | ENC_CHAR32 | ENC_UTF8 | ENC_WCHAR

datatype keyword_id =
  Punct int | KHASHHASH | KELLIPSIS
| OP_INC | OP_DEC | OP_ARROW | OP_EQ | OP_NE | OP_LE | OP_GE | OP_LOGAND | OP_LOGOR
| OP_SAL | OP_SAR | OP_A_ADD | OP_A_SUB | OP_A_MUL | OP_A_DIV | OP_A_MOD
| OP_A_AND | OP_A_OR | OP_A_XOR | OP_A_SAL | OP_A_SAR

text \<open>
  \<^verbatim>\<open>struct Token\<close>. The fields \<^verbatim>\<open>file\<close>, \<^verbatim>\<open>line\<close>, \<^verbatim>\<open>column\<close>, \<^verbatim>\<open>id\<close> and \<^verbatim>\<open>c\<close> are
  \<open>tfile\<close>, \<open>tline\<close>, \<open>tcolumn\<close>, \<open>kid\<close> and \<open>cval\<close>. The pointer \<^verbatim>\<open>file\<close> is represented by
  the name of the file it points to. \<open>sval\<close> is \<open>None\<close> for the null pointer, else the
  bytes it points to, with the NUL that ends them.
\<close>

record Token =
  kind :: token_kind
  tfile :: "string option"
  tline :: int
  tcolumn :: int
  space :: bool
  bol :: bool
  count :: int
  hideset :: ptr
  kid :: keyword_id
  sval :: "string option"
  slen :: int
  cval :: int
  enc :: encoding

text \<open>A compound literal \<^verbatim>\<open>(Token){ kind }\<close>: every other field is zero.\<close>

definition Token0 :: "token_kind \<Rightarrow> Token" where
  "Token0 k =
     \<lparr>kind = k, tfile = None, tline = 0, tcolumn = 0, space = False, bol = False, count = 0,
      hideset = NULL, kid = Punct 0, sval = None, slen = 0, cval = 0, enc = ENC_NONE\<rparr>"

text \<open>
  A \<^verbatim>\<open>Token *\<close> points to one of the three static tokens of the lexer or to a token that
  \<^verbatim>\<open>make_token\<close> has allocated; \<open>Malloc n\<close> is the \<open>n\<close>-th allocated token.
\<close>

datatype tokptr = SPACE_TOKEN | NEWLINE_TOKEN | EOF_TOKEN | Malloc nat

text \<open>
  The state of the lexer: the stacks of file.c, the vector \<^verbatim>\<open>buffers\<close> of token vectors
  (the last one is the current one, and the last token of a vector is its top), the
  marked position \<^verbatim>\<open>pos\<close> (line, column), the allocated tokens, the three static tokens,
  and the flag \<^verbatim>\<open>warning_is_error\<close> that the driver sets for \<^verbatim>\<open>-Werror\<close>.
\<close>

record lexer = stream +
  buffers :: "tokptr list list"
  pos :: "int \<times> int"
  heap :: "Token list"
  space_token :: Token
  newline_token :: Token
  eof_token :: Token
  warning_is_error :: bool

definition lexer0 :: lexer where
  "lexer0 =
     \<lparr>files = [], stashed = [], buffers = [], pos = (0, 0), heap = [],
      space_token = Token0 TSPACE, newline_token = Token0 TNEWLINE, eof_token = Token0 TEOF,
      warning_is_error = False\<rparr>"

text \<open>
  Reading and writing through a token pointer. No statement of the program assigns to
  the field \<^verbatim>\<open>kind\<close> of a static token: reading it gives the kind the token was
  initialised with.
\<close>

fun tok_at :: "lexer \<Rightarrow> tokptr \<Rightarrow> Token" where
  "tok_at s SPACE_TOKEN = (space_token s)\<lparr>kind := TSPACE\<rparr>"
| "tok_at s NEWLINE_TOKEN = (newline_token s)\<lparr>kind := TNEWLINE\<rparr>"
| "tok_at s EOF_TOKEN = (eof_token s)\<lparr>kind := TEOF\<rparr>"
| "tok_at s (Malloc n) = heap s ! n"

fun tok_update :: "tokptr \<Rightarrow> (Token \<Rightarrow> Token) \<Rightarrow> lexer \<Rightarrow> lexer" where
  "tok_update SPACE_TOKEN g s = s\<lparr>space_token := g (space_token s)\<rparr>"
| "tok_update NEWLINE_TOKEN g s = s\<lparr>newline_token := g (newline_token s)\<rparr>"
| "tok_update EOF_TOKEN g s = s\<lparr>eof_token := g (eof_token s)\<rparr>"
| "tok_update (Malloc n) g s = s\<lparr>heap := (heap s)[n := g (heap s ! n)]\<rparr>"

subsection \<open>The functions of file.c on the state of the lexer\<close>

definition current_file :: "'a stream_scheme \<Rightarrow> File res" where
  "current_file s = (if files s = [] then Inl (Assertion ''vec->len > 0'') else Inr (last (files s)))"

definition stream_push :: "File \<Rightarrow> 'a stream_scheme \<Rightarrow> 'a stream_scheme" where
  "stream_push f s = s\<lparr>files := files s @ [f]\<rparr>"

definition stream_depth :: "'a stream_scheme \<Rightarrow> int" where
  "stream_depth s = int (length (files s))"

definition stream_stash :: "File \<Rightarrow> 'a stream_scheme \<Rightarrow> 'a stream_scheme" where
  "stream_stash f s = s\<lparr>stashed := stashed s @ [files s], files := [f]\<rparr>"

definition stream_unstash :: "'a stream_scheme \<Rightarrow> 'a stream_scheme res" where
  "stream_unstash s =
     (if stashed s = [] then Inl (Assertion ''vec->len > 0'')
      else Inr (s\<lparr>files := last (stashed s), stashed := butlast (stashed s)\<rparr>))"

subsection \<open>Positions, errors and token construction\<close>

definition get_pos :: "int \<Rightarrow> lexer \<Rightarrow> (int \<times> int) res" where
  "get_pos delta s = bindr (current_file s) (\<lambda>f. Inr (line f, column f + delta))"

definition mark :: "lexer \<Rightarrow> lexer res" where
  "mark s = bindr (get_pos 0 s) (\<lambda>p. Inr (s\<lparr>pos := p\<rparr>))"

text \<open>
  \<^verbatim>\<open>errorp\<close> ends the program with a message for a position (\<open>Errorp\<close>, here an
  \<open>Error\<close> with the format of the message). Modelled from the spec: \<^verbatim>\<open>warnp\<close> prints a
  warning and goes on, unless warnings are errors.
\<close>

definition errorp :: "int \<times> int \<Rightarrow> string \<Rightarrow> 'a res" where
  "errorp p msg = Inl (Error msg)"

definition warnp :: "int \<times> int \<Rightarrow> string \<Rightarrow> lexer \<Rightarrow> lexer res" where
  "warnp p msg s = (if warning_is_error s then Inl (Error msg) else Inr s)"

definition make_token :: "Token \<Rightarrow> lexer \<Rightarrow> (tokptr \<times> lexer) res" where
  "make_token tmpl s =
     bindr (current_file s) (\<lambda>f.
       let r = tmpl\<lparr>hideset := NULL, tfile := name f, tline := fst (pos s),
                    tcolumn := snd (pos s), count := ntok f\<rparr>
       in Inr (Malloc (length (heap s)),
               s\<lparr>files := butlast (files s) @ [f\<lparr>ntok := ntok f + 1\<rparr>],
                 heap := heap s @ [r]\<rparr>))"

definition make_ident :: "string \<Rightarrow> lexer \<Rightarrow> (tokptr \<times> lexer) res" where
  "make_ident p s = make_token ((Token0 TIDENT)\<lparr>sval := Some p\<rparr>) s"

definition make_strtok :: "string \<Rightarrow> int \<Rightarrow> encoding \<Rightarrow> lexer \<Rightarrow> (tokptr \<times> lexer) res" where
  "make_strtok p n e s = make_token ((Token0 TSTRING)\<lparr>sval := Some p, slen := n, enc := e\<rparr>) s"

definition make_keyword :: "keyword_id \<Rightarrow> lexer \<Rightarrow> (tokptr \<times> lexer) res" where
  "make_keyword k s = make_token ((Token0 TKEYWORD)\<lparr>kid := k\<rparr>) s"

definition make_number :: "string \<Rightarrow> lexer \<Rightarrow> (tokptr \<times> lexer) res" where
  "make_number p s = make_token ((Token0 TNUMBER)\<lparr>sval := Some p\<rparr>) s"

definition make_invalid :: "char \<Rightarrow> lexer \<Rightarrow> (tokptr \<times> lexer) res" where
  "make_invalid c s = make_token ((Token0 TINVALID)\<lparr>cval := schar_int c\<rparr>) s"

definition make_char :: "int \<Rightarrow> encoding \<Rightarrow> lexer \<Rightarrow> (tokptr \<times> lexer) res" where
  "make_char c e s = make_token ((Token0 TCHAR)\<lparr>cval := c, enc := e\<rparr>) s"

subsection \<open>Character classes\<close>

text \<open>The classification functions of \<^verbatim>\<open>ctype.h\<close> in the C locale.\<close>

definition isdigit :: "int \<Rightarrow> bool" where
  "isdigit c = (ord CHR ''0'' \<le> c \<and> c \<le> ord CHR ''9'')"

definition isalpha :: "int \<Rightarrow> bool" where
  "isalpha c = ((ord CHR ''a'' \<le> c \<and> c \<le> ord CHR ''z'') \<or> (ord CHR ''A'' \<le> c \<and> c \<le> ord CHR ''Z''))"

definition isalnum :: "int \<Rightarrow> bool" where
  "isalnum c = (isalpha c \<or> isdigit c)"

definition isxdigit :: "int \<Rightarrow> bool" where
  "isxdigit c =
     (isdigit c \<or> (ord CHR ''a'' \<le> c \<and> c \<le> ord CHR ''f'') \<or> (ord CHR ''A'' \<le> c \<and> c \<le> ord CHR ''F''))"

text \<open>
  \<^verbatim>\<open>strchr(s, c) != NULL\<close>: the character is converted to \<^verbatim>\<open>char\<close> and looked for among
  the bytes of the string, of which the terminating NUL is one.
\<close>

definition strchr :: "string \<Rightarrow> int \<Rightarrow> bool" where
  "strchr str c = (int_char c \<in> set (str @ [CHR 0x00]))"

definition iswhitespace :: "int \<Rightarrow> bool" where
  "iswhitespace c = (c = ord CHR '' '' \<or> c = ord CHR 0x09 \<or> c = ord CHR 0x0C \<or> c = ord CHR 0x0B)"

subsection \<open>Lookahead and skipping\<close>

definition peek :: "lexer \<Rightarrow> (int \<times> lexer) res" where
  "peek s = bindr (readc s) (\<lambda>(r, s1). bindr (unreadc r s1) (\<lambda>s2. Inr (r, s2)))"

text \<open>The function \<^verbatim>\<open>next\<close>.\<close>

definition next_char :: "int \<Rightarrow> lexer \<Rightarrow> (bool \<times> lexer) res" where
  "next_char expect s =
     bindr (readc s) (\<lambda>(c, s1).
       if c = expect then Inr (True, s1)
       else bindr (unreadc c s1) (\<lambda>s2. Inr (False, s2)))"

lemma peek_left:
  assumes "peek s = Inr (r, s')"
  shows "stream_left s' \<le> stream_left s"
proof -
  from assms obtain s1 where r: "readc s = Inr (r, s1)" and u: "unreadc r s1 = Inr s'"
    unfolding peek_def by (auto simp: bindr_Inr_iff)
  from readc_left[OF r] unreadc_left[OF u] show ?thesis
    by (cases "r = EOF") auto
qed

lemma next_char_left:
  assumes "next_char e s = Inr (b, s')"
  shows "stream_left s' \<le> stream_left s \<and> (b \<and> e \<noteq> EOF \<longrightarrow> stream_left s' < stream_left s)"
proof -
  from assms obtain c s1 where r: "readc s = Inr (c, s1)"
    and rest: "(if c = e then Inr (True, s1)
                else bindr (unreadc c s1) (\<lambda>s2. Inr (False, s2))) = Inr (b, s')"
    unfolding next_char_def by (auto simp: bindr_Inr_iff)
  show ?thesis
  proof (cases "c = e")
    case True
    with rest readc_left[OF r] show ?thesis by auto
  next
    case False
    with rest obtain u: "unreadc c s1 = Inr s'" and "\<not> b"
      by (auto simp: bindr_Inr_iff)
    with readc_left[OF r] unreadc_left[OF u] show ?thesis
      by (cases "c = EOF") auto
  qed
qed

function skip_line :: "lexer \<Rightarrow> lexer res" where
  "skip_line s =
     bindr (readc s) (\<lambda>(c, s1).
       if c = EOF then Inr s1
       else if c = NL then unreadc c s1
       else skip_line s1)"
  by pat_completeness auto
termination
  by (relation "measure stream_left") (auto dest: readc_left)

declare skip_line.simps [simp del]


lemma bindrE:
  assumes "bindr m f = Inr y"
  obtains x where "m = Inr x" and "f x = Inr y"
  using assms by (cases m) auto

lemma skip_line_left:
  "skip_line s = Inr s' \<Longrightarrow> stream_left s' \<le> stream_left s"
proof (induction s rule: skip_line.induct)
  case (1 s)
  from "1.prems" obtain c s1 where r: "readc s = Inr (c, s1)"
    and rest: "(if c = EOF then Inr s1 else if c = NL then unreadc c s1 else skip_line s1) = Inr s'"
    by (subst (asm) skip_line.simps) (auto elim!: bindrE)
  note rl = readc_left[OF r]
  consider (eof) "c = EOF" | (nl) "c = NL" | (other) "c \<noteq> EOF" "c \<noteq> NL" by blast
  then show ?case
  proof cases
    case eof
    with rest rl show ?thesis by simp
  next
    case nl
    with rest have "unreadc c s1 = Inr s'" by simp
    from unreadc_left[OF this] rl nl show ?thesis by simp
  next
    case other
    with rest have "skip_line s1 = Inr s'" by simp
    from "1.IH"[OF r refl other this] rl show ?thesis by simp
  qed
qed

text \<open>\<^verbatim>\<open>skip_block_comment\<close>; the loop carries the variable \<^verbatim>\<open>maybe_end\<close>.\<close>

function skip_block_comment_loop :: "int \<times> int \<Rightarrow> bool \<Rightarrow> lexer \<Rightarrow> lexer res" where
  "skip_block_comment_loop p maybe_end s =
     bindr (readc s) (\<lambda>(c, s1).
       if c = EOF then errorp p ''premature end of block comment''
       else if c = ord CHR ''/'' \<and> maybe_end then Inr s1
       else skip_block_comment_loop p (c = ord CHR ''*'') s1)"
  by pat_completeness auto
termination
  by (relation "measure (\<lambda>(p, m, s). stream_left s)") (auto dest: readc_left)

declare skip_block_comment_loop.simps [simp del]

definition skip_block_comment :: "lexer \<Rightarrow> lexer res" where
  "skip_block_comment s = bindr (get_pos (- 2) s) (\<lambda>p. skip_block_comment_loop p False s)"

lemma skip_block_comment_loop_left:
  "skip_block_comment_loop p m s = Inr s' \<Longrightarrow> stream_left s' \<le> stream_left s"
proof (induction p m s rule: skip_block_comment_loop.induct)
  case (1 p m s)
  from "1.prems" obtain c s1 where r: "readc s = Inr (c, s1)"
    and rest: "(if c = EOF then errorp p ''premature end of block comment''
       else if c = ord CHR ''/'' \<and> m then Inr s1
       else skip_block_comment_loop p (c = ord CHR ''*'') s1) = Inr s'"
    by (subst (asm) skip_block_comment_loop.simps) (auto elim!: bindrE)
  note rl = readc_left[OF r]
  from rest have ne: "c \<noteq> EOF" by (auto simp: errorp_def)
  show ?case
  proof (cases "c = ord CHR ''/'' \<and> m")
    case True
    with ne rest rl show ?thesis by auto
  next
    case False
    with ne rest have "skip_block_comment_loop p (c = ord CHR ''*'') s1 = Inr s'" by auto
    from "1.IH"[OF r refl ne False this] rl show ?thesis by simp
  qed
qed

lemma skip_block_comment_left:
  "skip_block_comment s = Inr s' \<Longrightarrow> stream_left s' \<le> stream_left s"
  unfolding skip_block_comment_def
  by (auto elim!: bindrE dest: skip_block_comment_loop_left)

definition do_skip_space :: "lexer \<Rightarrow> (bool \<times> lexer) res" where
  "do_skip_space s =
     bindr (readc s) (\<lambda>(c, s1).
       if c = EOF then Inr (False, s1)
       else if iswhitespace c then Inr (True, s1)
       else if c = ord CHR ''/''
       then bindr (next_char (ord CHR ''*'') s1) (\<lambda>(star, s2).
              if star then bindr (skip_block_comment s2) (\<lambda>s3. Inr (True, s3))
              else bindr (next_char (ord CHR ''/'') s2) (\<lambda>(slash, s3).
                     if slash then bindr (skip_line s3) (\<lambda>s4. Inr (True, s4))
                     else bindr (unreadc c s3) (\<lambda>s4. Inr (False, s4))))
       else bindr (unreadc c s1) (\<lambda>s2. Inr (False, s2)))"

lemma do_skip_space_left:
  assumes "do_skip_space s = Inr (b, s')"
  shows "stream_left s' \<le> stream_left s \<and> (b \<longrightarrow> stream_left s' < stream_left s)"
proof -
  from assms obtain c s1 where r: "readc s = Inr (c, s1)"
    and rest: "(if c = EOF then Inr (False, s1)
       else if iswhitespace c then Inr (True, s1)
       else if c = ord CHR ''/''
       then bindr (next_char (ord CHR ''*'') s1) (\<lambda>(star, s2).
              if star then bindr (skip_block_comment s2) (\<lambda>s3. Inr (True, s3))
              else bindr (next_char (ord CHR ''/'') s2) (\<lambda>(slash, s3).
                     if slash then bindr (skip_line s3) (\<lambda>s4. Inr (True, s4))
                     else bindr (unreadc c s3) (\<lambda>s4. Inr (False, s4))))
       else bindr (unreadc c s1) (\<lambda>s2. Inr (False, s2))) = Inr (b, s')"
    unfolding do_skip_space_def by (auto elim!: bindrE)
  note rl = readc_left[OF r]
  consider (eof) "c = EOF" | (ws) "c \<noteq> EOF" "iswhitespace c"
    | (slash) "c \<noteq> EOF" "\<not> iswhitespace c" "c = ord CHR ''/''"
    | (other) "c \<noteq> EOF" "\<not> iswhitespace c" "c \<noteq> ord CHR ''/''" by blast
  then show ?thesis
  proof cases
    case eof
    with rest rl show ?thesis by auto
  next
    case ws
    with rest rl show ?thesis by auto
  next
    case other
    with rest obtain u: "unreadc c s1 = Inr s'" and "\<not> b" by (auto elim!: bindrE)
    with unreadc_left[OF u] rl other show ?thesis by auto
  next
    case slash
    with rest obtain star s2 where n1: "next_char (ord CHR ''*'') s1 = Inr (star, s2)"
      and rest2: "(if star then bindr (skip_block_comment s2) (\<lambda>s3. Inr (True, s3))
              else bindr (next_char (ord CHR ''/'') s2) (\<lambda>(slash, s3).
                     if slash then bindr (skip_line s3) (\<lambda>s4. Inr (True, s4))
                     else bindr (unreadc c s3) (\<lambda>s4. Inr (False, s4)))) = Inr (b, s')"
      by (auto elim!: bindrE)
    note n1l = next_char_left[OF n1]
    show ?thesis
    proof (cases star)
      case True
      with rest2 have "skip_block_comment s2 = Inr s'" by (auto elim!: bindrE)
      from skip_block_comment_left[OF this] n1l rl slash show ?thesis by auto
    next
      case False
      with rest2 obtain sl s3 where n2: "next_char (ord CHR ''/'') s2 = Inr (sl, s3)"
        and rest3: "(if sl then bindr (skip_line s3) (\<lambda>s4. Inr (True, s4))
                     else bindr (unreadc c s3) (\<lambda>s4. Inr (False, s4))) = Inr (b, s')"
        by (auto elim!: bindrE)
      note n2l = next_char_left[OF n2]
      show ?thesis
      proof (cases sl)
        case True
        with rest3 have "skip_line s3 = Inr s'" by (auto elim!: bindrE)
        from skip_line_left[OF this] n1l n2l rl slash show ?thesis by auto
      next
        case False
        with rest3 obtain u: "unreadc c s3 = Inr s'" and "\<not> b" by (auto elim!: bindrE)
        with unreadc_left[OF u] n1l n2l rl slash show ?thesis by auto
      qed
    qed
  qed
qed

text \<open>\<^verbatim>\<open>skip_space\<close>: the first call of \<^verbatim>\<open>do_skip_space\<close>, then the \<^verbatim>\<open>while\<close> loop.\<close>

function skip_space_loop :: "lexer \<Rightarrow> lexer res" where
  "skip_space_loop s = bindr (do_skip_space s) (\<lambda>(b, s1). if b then skip_space_loop s1 else Inr s1)"
  by pat_completeness auto
termination
  by (relation "measure stream_left") (auto dest: do_skip_space_left)

declare skip_space_loop.simps [simp del]

definition skip_space :: "lexer \<Rightarrow> (bool \<times> lexer) res" where
  "skip_space s =
     bindr (do_skip_space s) (\<lambda>(b, s1).
       if \<not> b then Inr (False, s1)
       else bindr (skip_space_loop s1) (\<lambda>s2. Inr (True, s2)))"

lemma skip_space_loop_left:
  "skip_space_loop s = Inr s' \<Longrightarrow> stream_left s' \<le> stream_left s"
proof (induction s rule: skip_space_loop.induct)
  case (1 s)
  from "1.prems" obtain b s1 where d: "do_skip_space s = Inr (b, s1)"
    and rest: "(if b then skip_space_loop s1 else Inr s1) = Inr s'"
    by (subst (asm) skip_space_loop.simps) (auto elim!: bindrE)
  from "1.IH"[OF d refl] rest do_skip_space_left[OF d] show ?case
    by (cases b) auto
qed

lemma skip_space_left:
  assumes "skip_space s = Inr (b, s')"
  shows "stream_left s' \<le> stream_left s \<and> (b \<longrightarrow> stream_left s' < stream_left s)"
proof -
  from assms obtain b1 s1 where d: "do_skip_space s = Inr (b1, s1)"
    and rest: "(if \<not> b1 then Inr (False, s1)
       else bindr (skip_space_loop s1) (\<lambda>s2. Inr (True, s2))) = Inr (b, s')"
    unfolding skip_space_def by (auto elim!: bindrE)
  show ?thesis
  proof (cases b1)
    case False
    with rest do_skip_space_left[OF d] show ?thesis by auto
  next
    case True
    with rest have "skip_space_loop s1 = Inr s'" by (auto elim!: bindrE)
    from skip_space_loop_left[OF this] do_skip_space_left[OF d] True show ?thesis by auto
  qed
qed

subsection \<open>Skipping literals\<close>

text \<open>\<^verbatim>\<open>skip_char\<close>; the loop carries the variable \<^verbatim>\<open>c\<close>.\<close>

function skip_char_loop :: "int \<Rightarrow> lexer \<Rightarrow> lexer res" where
  "skip_char_loop c s =
     (if c \<noteq> EOF \<and> c \<noteq> ord CHR 0x27
      then bindr (readc s) (\<lambda>(c', s1). skip_char_loop c' s1)
      else Inr s)"
  by pat_completeness auto
termination
  by (relation "measure (\<lambda>(c, s). 2 * stream_left s + (if c \<noteq> EOF \<and> c \<noteq> ord CHR 0x27 then 1 else 0))")
     (auto dest: readc_left)

declare skip_char_loop.simps [simp del]

definition skip_char :: "lexer \<Rightarrow> lexer res" where
  "skip_char s =
     bindr (readc s) (\<lambda>(c0, s1).
       bindr (if c0 = BACKSLASH then bindr (readc s1) (\<lambda>(c1, s2). Inr s2) else Inr s1) (\<lambda>s2.
         bindr (readc s2) (\<lambda>(c, s3). skip_char_loop c s3)))"

lemma skip_char_loop_left:
  "skip_char_loop c s = Inr s' \<Longrightarrow> stream_left s' \<le> stream_left s"
proof (induction c s rule: skip_char_loop.induct)
  case (1 c s)
  show ?case
  proof (cases "c \<noteq> EOF \<and> c \<noteq> ord CHR 0x27")
    case True
    with "1.prems" obtain c' s1 where r: "readc s = Inr (c', s1)" and l: "skip_char_loop c' s1 = Inr s'"
      by (subst (asm) skip_char_loop.simps) (auto elim!: bindrE)
    from "1.IH"[OF True r refl l] readc_left[OF r] show ?thesis by simp
  next
    case False
    with "1.prems" show ?thesis by (subst (asm) skip_char_loop.simps) auto
  qed
qed

lemma skip_char_left:
  "skip_char s = Inr s' \<Longrightarrow> stream_left s' \<le> stream_left s"
  unfolding skip_char_def
  by (fastforce elim!: bindrE split: if_splits dest!: readc_left skip_char_loop_left)

function skip_string_loop :: "lexer \<Rightarrow> lexer res" where
  "skip_string_loop s =
     bindr (readc s) (\<lambda>(c, s1).
       if c \<noteq> EOF \<and> c \<noteq> ord CHR 0x22
       then (if c = BACKSLASH then bindr (readc s1) (\<lambda>(c1, s2). skip_string_loop s2)
             else skip_string_loop s1)
       else Inr s1)"
  by pat_completeness auto
termination
proof (relation "measure stream_left")
  show "wf (measure stream_left)" by simp
next
  fix s :: lexer and x c s1 x' c1 s2
  assume "readc s = Inr x" "(c, s1) = x" "c \<noteq> EOF \<and> c \<noteq> ord CHR 0x22"
    "readc s1 = Inr x'" "(c1, s2) = x'"
  then have "readc s = Inr (c, s1)" "readc s1 = Inr (c1, s2)" "c \<noteq> EOF" by simp_all
  from readc_left[OF this(1)] readc_left[OF this(2)] this(3)
  show "(s2, s) \<in> measure stream_left" by simp
next
  fix s :: lexer and x c s1
  assume "readc s = Inr x" "(c, s1) = x" "c \<noteq> EOF \<and> c \<noteq> ord CHR 0x22"
  then have "readc s = Inr (c, s1)" "c \<noteq> EOF" by simp_all
  from readc_left[OF this(1)] this(2)
  show "(s1, s) \<in> measure stream_left" by simp
qed

declare skip_string_loop.simps [simp del]

definition skip_string :: "lexer \<Rightarrow> lexer res" where
  "skip_string s = skip_string_loop s"

lemma skip_string_loop_left:
  "skip_string_loop s = Inr s' \<Longrightarrow> stream_left s' \<le> stream_left s"
proof (induction s rule: skip_string_loop.induct)
  case (1 s)
  from "1.prems" obtain c s1 where r: "readc s = Inr (c, s1)"
    and rest: "(if c \<noteq> EOF \<and> c \<noteq> ord CHR 0x22
       then (if c = BACKSLASH then bindr (readc s1) (\<lambda>(c1, s2). skip_string_loop s2)
             else skip_string_loop s1)
       else Inr s1) = Inr s'"
    by (subst (asm) skip_string_loop.simps) (auto elim!: bindrE)
  note rl = readc_left[OF r]
  show ?case
  proof (cases "c \<noteq> EOF \<and> c \<noteq> ord CHR 0x22")
    case False
    with rest rl show ?thesis by auto
  next
    case True
    show ?thesis
    proof (cases "c = BACKSLASH")
      case False
      with True rest have "skip_string_loop s1 = Inr s'" by simp
      from "1.IH"(2)[OF r refl True False this] rl show ?thesis by simp
    next
      case bs: True
      with True rest obtain c1 s2 where r2: "readc s1 = Inr (c1, s2)"
        and l: "skip_string_loop s2 = Inr s'"
        by (auto elim!: bindrE)
      from "1.IH"(1)[OF r refl True bs r2 refl l] rl readc_left[OF r2] show ?thesis by simp
    qed
  qed
qed

lemma skip_string_left:
  "skip_string s = Inr s' \<Longrightarrow> stream_left s' \<le> stream_left s"
  unfolding skip_string_def by (rule skip_string_loop_left)

subsection \<open>Numbers\<close>

lemma make_token_left:
  "make_token t s = Inr (r, s') \<Longrightarrow> stream_left s' = stream_left s"
  unfolding make_token_def current_file_def
  by (auto elim!: bindrE split: if_splits simp: Let_def stream_left_split file_left_def)

text \<open>
  \<^verbatim>\<open>read_number\<close>; the loop carries the buffer and the variable \<^verbatim>\<open>last\<close>. The condition
  under which the loop goes on is \<open>number_char\<close>.
\<close>

definition number_char :: "char \<Rightarrow> int \<Rightarrow> bool" where
  "number_char lst c =
     (let flonum = (strchr ''eEpP'' (schar_int lst) \<and> strchr ''+-'' c)
      in \<not> (\<not> isdigit c \<and> \<not> isalpha c \<and> c \<noteq> ord CHR ''.'' \<and> \<not> flonum))"

lemma int_char_EOF: "int_char EOF = CHR 0xFF"
  by code_simp

lemma number_char_not_EOF: "number_char lst c \<Longrightarrow> c \<noteq> EOF"
  by (auto simp: number_char_def isdigit_def isalpha_def strchr_def int_char_EOF)

function read_number_loop :: "Buffer \<Rightarrow> char \<Rightarrow> lexer \<Rightarrow> (tokptr \<times> lexer) res" where
  "read_number_loop b lst s =
     bindr (readc s) (\<lambda>(c, s1).
       if \<not> number_char lst c
       then bindr (unreadc c s1) (\<lambda>s2. make_number (buf_body (buf_write b (CHR 0x00))) s2)
       else read_number_loop (buf_write b (int_char c)) (int_char c) s1)"
  by pat_completeness auto
termination
  by (relation "measure (\<lambda>(b, lst, s). stream_left s)")
     (auto dest: readc_left number_char_not_EOF)

declare read_number_loop.simps [simp del]

definition read_number :: "char \<Rightarrow> lexer \<Rightarrow> (tokptr \<times> lexer) res" where
  "read_number c s = read_number_loop (buf_write make_buffer c) c s"

lemma read_number_loop_left:
  "read_number_loop b lst s = Inr (t, s') \<Longrightarrow> stream_left s' \<le> stream_left s"
proof (induction b lst s rule: read_number_loop.induct)
  case (1 b lst s)
  from "1.prems" obtain c s1 where r: "readc s = Inr (c, s1)"
    and rest: "(if \<not> number_char lst c
       then bindr (unreadc c s1) (\<lambda>s2. make_number (buf_body (buf_write b (CHR 0x00))) s2)
       else read_number_loop (buf_write b (int_char c)) (int_char c) s1) = Inr (t, s')"
    by (subst (asm) read_number_loop.simps) (auto elim!: bindrE)
  note rl = readc_left[OF r]
  show ?case
  proof (cases "number_char lst c")
    case True
    with rest have "read_number_loop (buf_write b (int_char c)) (int_char c) s1 = Inr (t, s')" by simp
    from "1.IH"[OF r refl _ this] True rl show ?thesis by simp
  next
    case False
    with rest obtain s2 where u: "unreadc c s1 = Inr s2"
      and m: "make_number (buf_body (buf_write b (CHR 0x00))) s2 = Inr (t, s')"
      by (auto elim!: bindrE)
    from make_token_left[OF m[unfolded make_number_def]] unreadc_left[OF u] rl show ?thesis
      by (cases "c = EOF") auto
  qed
qed

lemma read_number_left:
  "read_number c s = Inr (t, s') \<Longrightarrow> stream_left s' \<le> stream_left s"
  unfolding read_number_def by (rule read_number_loop_left)

subsection \<open>End of input\<close>

lemma get_char_EOF_stable:
  assumes "fst (get_char f) = EOF" and "file_left (snd (get_char f)) = file_left f"
  shows "get_char (snd (get_char f)) = (EOF, snd (get_char f))"
proof (cases "buf f \<noteq> []")
  case True
  then have "0 < length (buf f)" by simp
  with True have "file_left (snd (get_char f)) < file_left f"
    by (simp add: get_char_def file_left_def)
  with assms(2) show ?thesis by simp
next
  case False
  then have b: "buf f = []" by simp
  show ?thesis
  proof (cases "filep f")
    case (Some fp)
    show ?thesis
    proof (cases fp)
      case Nil
      with Some b assms show ?thesis
        by (auto simp: get_char_def readc_file_def Let_def split: if_splits)
    next
      case (Cons c0 rest)
      from uchar_int_nonneg[of c0] have "uchar_int c0 \<noteq> EOF" by simp
      with Cons Some b assms(1) show ?thesis
        by (cases rest) (auto simp: get_char_def readc_file_def Let_def split: if_splits)
    qed
  next
    case None
    show ?thesis
    proof (cases "deref (pstr f) = CHR 0x00")
      case True
      with None b assms show ?thesis
        by (auto simp: get_char_def readc_string_def Let_def split: if_splits)
    next
      case False
      then obtain c0 rest where p: "pstr f = c0 # rest" by (cases "pstr f") auto
      with False None b assms show ?thesis
        by (auto simp: get_char_def readc_string_def Let_def file_left_def split: if_splits)
    qed
  qed
qed

lemma get_EOF_stable:
  assumes "get s = Inr (EOF, s1)" and "stream_left s1 = stream_left s"
  shows "get s1 = Inr (EOF, s1)"
proof -
  from assms(1) have ne: "files s \<noteq> []" by (auto simp: get_eq split: if_splits)
  let ?f = "last (files s)"
  let ?f1 = "snd (get_char ?f)"
  from assms(1) ne have c: "fst (get_char ?f) = EOF"
    and s1: "s1 = s\<lparr>files := butlast (files s) @ [?f1]\<rparr>"
    by (auto simp: get_eq advance_def)
  from stream_left_last[OF ne, of ?f1] assms(2) have "file_left ?f1 = file_left ?f"
    unfolding s1 by simp
  from get_char_EOF_stable[OF c this] show ?thesis
    unfolding s1 by (simp add: get_eq advance_def)
qed

lemma readc_EOF_stable:
  assumes "readc s = Inr (EOF, s1)" and "stream_left s1 = stream_left s"
  shows "readc s1 = Inr (EOF, s1)"
proof -
  from assms(1) obtain c sa where g: "get s = Inr (c, sa)"
    by (subst (asm) readc.simps) (auto split: sum.splits)
  note gl = get_left[OF g]
  show ?thesis
  proof (cases "c = EOF")
    case True
    show ?thesis
    proof (cases "length (files sa) = 1")
      case one: True
      with True g assms(1) have s1: "s1 = sa" by (subst (asm) readc.simps) simp
      from get_EOF_stable[of s sa] g True assms(2) s1 have "get sa = Inr (EOF, sa)" by simp
      with one show ?thesis unfolding s1 by (subst readc.simps) simp
    next
      case False
      from g have "files s \<noteq> []" by (auto simp: get_eq split: if_splits)
      with gl have "files sa \<noteq> []" by auto
      note pl = stream_left_pop[OF this]
      from False True g assms(1) have "readc (sa\<lparr>files := butlast (files sa)\<rparr>) = Inr (EOF, s1)"
        by (subst (asm) readc.simps) simp
      from readc_left[OF this] pl gl assms(2) show ?thesis by simp
    qed
  next
    case False
    show ?thesis
    proof (cases "c = BACKSLASH")
      case nb: False
      with False g assms(1) show ?thesis by (subst (asm) readc.simps) simp
    next
      case True
      with False g assms(1) obtain c2 s2 where h: "get sa = Inr (c2, s2)"
        by (subst (asm) readc.simps) (auto split: sum.splits)
      note hl = get_left[OF h]
      show ?thesis
      proof (cases "c2 = NL")
        case nl: True
        with True False g h assms(1) have "readc s2 = Inr (EOF, s1)"
          by (subst (asm) readc.simps) simp
        from readc_left[OF this] gl hl False assms(2) show ?thesis by simp
      next
        case False
        with True \<open>c \<noteq> EOF\<close> g h assms(1) show ?thesis
          by (subst (asm) readc.simps) (auto split: sum.splits)
      qed
    qed
  qed
qed

subsection \<open>Escapes\<close>

definition nextoct :: "lexer \<Rightarrow> (bool \<times> lexer) res" where
  "nextoct s = bindr (peek s) (\<lambda>(c, s1). Inr (ord CHR ''0'' \<le> c \<and> c \<le> ord CHR ''7'', s1))"

definition read_octal_char :: "int \<Rightarrow> lexer \<Rightarrow> (int \<times> lexer) res" where
  "read_octal_char c s =
     (let r = c - ord CHR ''0''
      in bindr (nextoct s) (\<lambda>(oct1, s1).
           if \<not> oct1 then Inr (r, s1)
           else bindr (readc s1) (\<lambda>(c1, s2).
                  let r = push_bit 3 r OR (c1 - ord CHR ''0'')
                  in bindr (nextoct s2) (\<lambda>(oct2, s3).
                       if \<not> oct2 then Inr (r, s3)
                       else bindr (readc s3) (\<lambda>(c2, s4).
                              Inr (push_bit 3 r OR (c2 - ord CHR ''0''), s4))))))"

text \<open>
  \<^verbatim>\<open>read_hex_char\<close>; the loop carries \<^verbatim>\<open>r\<close>, an \<^verbatim>\<open>int\<close> of 32 bits whose shifts wrap
  around, and the character \<^verbatim>\<open>c\<close>.
\<close>

function read_hex_loop :: "32 word \<Rightarrow> int \<Rightarrow> lexer \<Rightarrow> (int \<times> lexer) res" where
  "read_hex_loop r c s =
     (if ord CHR ''0'' \<le> c \<and> c \<le> ord CHR ''9''
      then bindr (readc s) (\<lambda>(c', s1).
             read_hex_loop (push_bit 4 r OR word_of_int (c - ord CHR ''0'')) c' s1)
      else if ord CHR ''a'' \<le> c \<and> c \<le> ord CHR ''f''
      then bindr (readc s) (\<lambda>(c', s1).
             read_hex_loop (push_bit 4 r OR word_of_int (c - ord CHR ''a'' + 10)) c' s1)
      else if ord CHR ''A'' \<le> c \<and> c \<le> ord CHR ''F''
      then bindr (readc s) (\<lambda>(c', s1).
             read_hex_loop (push_bit 4 r OR word_of_int (c - ord CHR ''A'' + 10)) c' s1)
      else bindr (unreadc c s) (\<lambda>s1. Inr (sint r, s1)))"
  by pat_completeness auto
termination
  by (relation "measure (\<lambda>(r, c, s). 2 * stream_left s + (if isxdigit c then 1 else 0))")
     (auto dest!: readc_left simp: isxdigit_def isdigit_def)

declare read_hex_loop.simps [simp del]

definition read_hex_char :: "lexer \<Rightarrow> (int \<times> lexer) res" where
  "read_hex_char s =
     bindr (get_pos (- 2) s) (\<lambda>p.
       bindr (readc s) (\<lambda>(c, s1).
         if \<not> isxdigit c then errorp p (CHR 0x5C # ''x is not followed by a hexadecimal character: %c'')
         else read_hex_loop 0 c s1))"

definition is_valid_ucn :: "32 word \<Rightarrow> bool" where
  "is_valid_ucn c =
     (if 0xD800 \<le> c \<and> c \<le> 0xDFFF then False
      else 0xA0 \<le> c \<or> c = 0x24 \<or> c = 0x40 \<or> c = 0x60)"

text \<open>
  \<^verbatim>\<open>read_universal_char\<close>; the loop counts the digits still to be read. Each character
  read is stored in a \<^verbatim>\<open>char\<close>.
\<close>

fun read_universal_loop :: "nat \<Rightarrow> int \<times> int \<Rightarrow> 32 word \<Rightarrow> lexer \<Rightarrow> (32 word \<times> lexer) res" where
  "read_universal_loop 0 p r s = Inr (r, s)"
| "read_universal_loop (Suc n) p r s =
     bindr (readc s) (\<lambda>(ci, s1).
       let c = schar_int (int_char ci)
       in if ord CHR ''0'' \<le> c \<and> c \<le> ord CHR ''9''
          then read_universal_loop n p (push_bit 4 r OR word_of_int (c - ord CHR ''0'')) s1
          else if ord CHR ''a'' \<le> c \<and> c \<le> ord CHR ''f''
          then read_universal_loop n p (push_bit 4 r OR word_of_int (c - ord CHR ''a'' + 10)) s1
          else if ord CHR ''A'' \<le> c \<and> c \<le> ord CHR ''F''
          then read_universal_loop n p (push_bit 4 r OR word_of_int (c - ord CHR ''A'' + 10)) s1
          else errorp p ''invalid universal character: %c'')"

definition read_universal_char :: "nat \<Rightarrow> lexer \<Rightarrow> (int \<times> lexer) res" where
  "read_universal_char n s =
     bindr (get_pos (- 2) s) (\<lambda>p.
       bindr (read_universal_loop n p 0 s) (\<lambda>(r, s1).
         if \<not> is_valid_ucn r then errorp p (''invalid universal character: '' @ CHR 0x5C # ''%c%0*x'')
         else Inr (sint r, s1)))"

definition read_escaped_char :: "lexer \<Rightarrow> (int \<times> lexer) res" where
  "read_escaped_char s =
     bindr (get_pos (- 1) s) (\<lambda>p.
       bindr (readc s) (\<lambda>(c, s1).
         if c = ord CHR 0x27 \<or> c = ord CHR 0x22 \<or> c = ord CHR ''?'' \<or> c = BACKSLASH then Inr (c, s1)
         else if c = ord CHR ''a'' then Inr (7, s1)
         else if c = ord CHR ''b'' then Inr (8, s1)
         else if c = ord CHR ''f'' then Inr (12, s1)
         else if c = ord CHR ''n'' then Inr (10, s1)
         else if c = ord CHR ''r'' then Inr (13, s1)
         else if c = ord CHR ''t'' then Inr (9, s1)
         else if c = ord CHR ''v'' then Inr (11, s1)
         else if c = ord CHR ''e'' then Inr (27, s1)
         else if c = ord CHR ''x'' then read_hex_char s1
         else if c = ord CHR ''u'' then read_universal_char 4 s1
         else if c = ord CHR ''U'' then read_universal_char 8 s1
         else if ord CHR ''0'' \<le> c \<and> c \<le> ord CHR ''7'' then read_octal_char c s1
         else bindr (warnp p (''unknown escape character: '' @ CHR 0x5C # ''%c'') s1) (\<lambda>s2. Inr (c, s2))))"

definition read_char :: "encoding \<Rightarrow> lexer \<Rightarrow> (tokptr \<times> lexer) res" where
  "read_char e s =
     bindr (readc s) (\<lambda>(c, s1).
       bindr (if c = BACKSLASH then read_escaped_char s1 else Inr (c, s1)) (\<lambda>(r, s2).
         bindr (readc s2) (\<lambda>(c', s3).
           if c' \<noteq> ord CHR 0x27 then errorp (pos s3) ''unterminated char''
           else if e = ENC_NONE then make_char (schar_int (int_char r)) e s3
           else make_char r e s3)))"

lemma nextoct_left:
  "nextoct s = Inr (b, s') \<Longrightarrow> stream_left s' \<le> stream_left s"
  unfolding nextoct_def by (auto elim!: bindrE dest: peek_left)

lemma read_octal_char_left:
  "read_octal_char c s = Inr (r, s') \<Longrightarrow> stream_left s' \<le> stream_left s"
  unfolding read_octal_char_def Let_def
  by (fastforce elim!: bindrE split: if_splits dest!: nextoct_left readc_left)

text \<open>The value of a hexadecimal digit, as the three cases of the \<^verbatim>\<open>switch\<close> compute it.\<close>

definition hexval :: "int \<Rightarrow> int" where
  "hexval c =
     (if ord CHR ''0'' \<le> c \<and> c \<le> ord CHR ''9'' then c - ord CHR ''0''
      else if ord CHR ''a'' \<le> c \<and> c \<le> ord CHR ''f'' then c - ord CHR ''a'' + 10
      else c - ord CHR ''A'' + 10)"

lemma read_hex_loop_eq:
  "read_hex_loop r c s =
     (if isxdigit c
      then bindr (readc s) (\<lambda>(c', s1). read_hex_loop (push_bit 4 r OR word_of_int (hexval c)) c' s1)
      else bindr (unreadc c s) (\<lambda>s1. Inr (sint r, s1)))"
  by (subst read_hex_loop.simps) (auto simp: isxdigit_def isdigit_def hexval_def)

lemma read_hex_loop_left:
  "read_hex_loop r c s = Inr (x, s') \<Longrightarrow>
   stream_left s' \<le> stream_left s + (if c = EOF then 0 else 1)"
proof (induction "2 * stream_left s + (if isxdigit c then 1 else 0)" arbitrary: r c s rule: less_induct)
  case less
  show ?case
  proof (cases "isxdigit c")
    case False
    with less.prems obtain u: "unreadc c s = Inr s'"
      by (subst (asm) read_hex_loop_eq) (auto elim!: bindrE)
    from unreadc_left[OF u] show ?thesis by auto
  next
    case True
    then have ne: "c \<noteq> EOF" by (auto simp: isxdigit_def isdigit_def)
    from True less.prems obtain c' s1 where rd: "readc s = Inr (c', s1)"
      and l: "read_hex_loop (push_bit 4 r OR word_of_int (hexval c)) c' s1 = Inr (x, s')"
      by (subst (asm) read_hex_loop_eq) (auto elim!: bindrE)
    note rl = readc_left[OF rd]
    have "2 * stream_left s1 + (if isxdigit c' then 1 else 0) < 2 * stream_left s + (if isxdigit c then 1 else 0)"
      using rl True by (cases "c' = EOF") (auto simp: isxdigit_def isdigit_def)
    from less.hyps[OF this l] rl ne show ?thesis by (cases "c' = EOF") auto
  qed
qed

lemma read_hex_char_left:
  "read_hex_char s = Inr (x, s') \<Longrightarrow> stream_left s' \<le> stream_left s"
proof -
  assume a: "read_hex_char s = Inr (x, s')"
  then obtain c s1 where rd: "readc s = Inr (c, s1)" and x: "isxdigit c"
    and l: "read_hex_loop 0 c s1 = Inr (x, s')"
    unfolding read_hex_char_def errorp_def by (auto elim!: bindrE split: if_splits)
  from x have "c \<noteq> EOF" by (auto simp: isxdigit_def isdigit_def)
  with readc_left[OF rd] read_hex_loop_left[OF l] show ?thesis by auto
qed

lemma read_universal_loop_left:
  "read_universal_loop n p r s = Inr (x, s') \<Longrightarrow> stream_left s' \<le> stream_left s"
proof (induction n arbitrary: r s)
  case 0
  then show ?case by simp
next
  case (Suc n)
  from Suc.prems obtain ci s1 r' where rd: "readc s = Inr (ci, s1)"
    and l: "read_universal_loop n p r' s1 = Inr (x, s')"
    by (auto simp: Let_def errorp_def elim!: bindrE split: if_splits)
  from Suc.IH[OF l] readc_left[OF rd] show ?case by simp
qed

lemma read_universal_char_left:
  "read_universal_char n s = Inr (x, s') \<Longrightarrow> stream_left s' \<le> stream_left s"
  unfolding read_universal_char_def errorp_def
  by (auto elim!: bindrE split: if_splits dest: read_universal_loop_left)

lemma warnp_left: "warnp p m s = Inr s' \<Longrightarrow> s' = s"
  by (auto simp: warnp_def split: if_splits)

lemma read_escaped_char_left:
  assumes "read_escaped_char s = Inr (x, s')"
  shows "stream_left s' \<le> stream_left s"
proof -
  from assms obtain p c s1 where rd: "readc s = Inr (c, s1)"
    and rest: "(if c = ord CHR 0x27 \<or> c = ord CHR 0x22 \<or> c = ord CHR ''?'' \<or> c = BACKSLASH then Inr (c, s1)
         else if c = ord CHR ''a'' then Inr (7, s1)
         else if c = ord CHR ''b'' then Inr (8, s1)
         else if c = ord CHR ''f'' then Inr (12, s1)
         else if c = ord CHR ''n'' then Inr (10, s1)
         else if c = ord CHR ''r'' then Inr (13, s1)
         else if c = ord CHR ''t'' then Inr (9, s1)
         else if c = ord CHR ''v'' then Inr (11, s1)
         else if c = ord CHR ''e'' then Inr (27, s1)
         else if c = ord CHR ''x'' then read_hex_char s1
         else if c = ord CHR ''u'' then read_universal_char 4 s1
         else if c = ord CHR ''U'' then read_universal_char 8 s1
         else if ord CHR ''0'' \<le> c \<and> c \<le> ord CHR ''7'' then read_octal_char c s1
         else bindr (warnp p (''unknown escape character: '' @ CHR 0x5C # ''%c'') s1) (\<lambda>s2. Inr (c, s2)))
        = Inr (x, s')"
    unfolding read_escaped_char_def by (auto elim!: bindrE)
  from rest have "stream_left s' \<le> stream_left s1"
    by (auto split: if_splits elim!: bindrE
             dest: read_hex_char_left read_universal_char_left read_octal_char_left warnp_left)
  with readc_left[OF rd] show ?thesis by simp
qed

lemma read_char_left:
  assumes "read_char e s = Inr (t, s')"
  shows "stream_left s' \<le> stream_left s"
proof -
  from assms obtain c s1 r s2 c' s3 where rd: "readc s = Inr (c, s1)"
    and esc: "(if c = BACKSLASH then read_escaped_char s1 else Inr (c, s1)) = Inr (r, s2)"
    and rd2: "readc s2 = Inr (c', s3)"
    and mk: "(if e = ENC_NONE then make_char (schar_int (int_char r)) e s3 else make_char r e s3) = Inr (t, s')"
    unfolding read_char_def errorp_def by (auto elim!: bindrE split: if_splits)
  from esc have "stream_left s2 \<le> stream_left s1"
    by (auto split: if_splits dest: read_escaped_char_left)
  moreover from mk have "stream_left s' = stream_left s3"
    by (auto split: if_splits simp: make_char_def dest: make_token_left)
  ultimately show ?thesis using readc_left[OF rd] readc_left[OF rd2] by simp
qed

subsection \<open>Strings and identifiers\<close>

text \<open>
  Modelled from the spec: \<^verbatim>\<open>write_utf8\<close>, the UTF-8 encoder that the lexer takes from
  encoding.c, which is not among the sources. It writes the UTF-8 form of a code point
  of up to 21 bits into the buffer and ends the program for a larger one.
\<close>

definition word_char :: "32 word \<Rightarrow> char" where
  "word_char w = char_of (uint w)"

definition write_utf8 :: "Buffer \<Rightarrow> 32 word \<Rightarrow> Buffer res" where
  "write_utf8 b rune =
     (if rune < 0x80 then Inr (buf_write b (word_char rune))
      else if rune < 0x800
      then Inr (buf_write (buf_write b (word_char (0xC0 OR drop_bit 6 rune)))
                  (word_char (0x80 OR (rune AND 0x3F))))
      else if rune < 0x10000
      then Inr (buf_write (buf_write (buf_write b (word_char (0xE0 OR drop_bit 12 rune)))
                  (word_char (0x80 OR (drop_bit 6 rune AND 0x3F))))
                  (word_char (0x80 OR (rune AND 0x3F))))
      else if rune < 0x200000
      then Inr (buf_write (buf_write (buf_write (buf_write b (word_char (0xF0 OR drop_bit 18 rune)))
                  (word_char (0x80 OR (drop_bit 12 rune AND 0x3F))))
                  (word_char (0x80 OR (drop_bit 6 rune AND 0x3F))))
                  (word_char (0x80 OR (rune AND 0x3F))))
      else Inl (Error (''invalid UCS character: '' @ CHR 0x5C # ''U%08x'')))"

text \<open>
  \<^verbatim>\<open>peek() == 'u' || peek() == 'U'\<close>: the second call is made only when the first one
  has not seen \<open>u\<close>.
\<close>

definition peek_ucn :: "lexer \<Rightarrow> (bool \<times> lexer) res" where
  "peek_ucn s =
     bindr (peek s) (\<lambda>(c1, s1).
       if c1 = ord CHR ''u'' then Inr (True, s1)
       else bindr (peek s1) (\<lambda>(c2, s2). Inr (c2 = ord CHR ''U'', s2)))"

lemma peek_ucn_left:
  "peek_ucn s = Inr (b, s') \<Longrightarrow> stream_left s' \<le> stream_left s"
  unfolding peek_ucn_def
  by (fastforce elim!: bindrE split: if_splits dest!: peek_left)

text \<open>\<^verbatim>\<open>read_string\<close>; the loop carries the buffer and is left by the \<^verbatim>\<open>break\<close>.\<close>

function read_string_loop :: "Buffer \<Rightarrow> lexer \<Rightarrow> (Buffer \<times> lexer) res" where
  "read_string_loop b s =
     bindr (readc s) (\<lambda>(c, s1).
       if c = EOF then errorp (pos s1) ''unterminated string''
       else if c = ord CHR 0x22 then Inr (b, s1)
       else if c \<noteq> BACKSLASH then read_string_loop (buf_write b (int_char c)) s1
       else bindr (peek_ucn s1) (\<lambda>(isucs, s2).
              bindr (read_escaped_char s2) (\<lambda>(c', s3).
                if isucs then bindr (write_utf8 b (word_of_int c')) (\<lambda>b'. read_string_loop b' s3)
                else read_string_loop (buf_write b (int_char c')) s3)))"
  by pat_completeness auto
termination
proof (relation "measure (\<lambda>(b, s). stream_left s)")
  show "wf (measure (\<lambda>(b, s). stream_left s))" by simp
next
  fix b :: Buffer and s :: lexer and x c s1
  assume "readc s = Inr x" "(c, s1) = x" "c \<noteq> EOF"
  then have "readc s = Inr (c, s1)" by simp
  from readc_left[OF this] \<open>c \<noteq> EOF\<close>
  show "((buf_write b (int_char c), s1), b, s) \<in> measure (\<lambda>(b, s). stream_left s)" by simp
next
  fix b :: Buffer and s :: lexer and x c s1 xa isucs s2 xb c' s3 b'
  assume "readc s = Inr x" "(c, s1) = x" "c \<noteq> EOF" "peek_ucn s1 = Inr xa" "(isucs, s2) = xa"
    "read_escaped_char s2 = Inr xb" "(c', s3) = xb"
  then have "readc s = Inr (c, s1)" "peek_ucn s1 = Inr (isucs, s2)" "read_escaped_char s2 = Inr (c', s3)"
    by simp_all
  from readc_left[OF this(1)] peek_ucn_left[OF this(2)] read_escaped_char_left[OF this(3)] \<open>c \<noteq> EOF\<close>
  show "((b', s3), b, s) \<in> measure (\<lambda>(b, s). stream_left s)" by simp
next
  fix b :: Buffer and s :: lexer and x c s1 xa isucs s2 xb c' s3
  assume "readc s = Inr x" "(c, s1) = x" "c \<noteq> EOF" "peek_ucn s1 = Inr xa" "(isucs, s2) = xa"
    "read_escaped_char s2 = Inr xb" "(c', s3) = xb"
  then have "readc s = Inr (c, s1)" "peek_ucn s1 = Inr (isucs, s2)" "read_escaped_char s2 = Inr (c', s3)"
    by simp_all
  from readc_left[OF this(1)] peek_ucn_left[OF this(2)] read_escaped_char_left[OF this(3)] \<open>c \<noteq> EOF\<close>
  show "((buf_write b (int_char c'), s3), b, s) \<in> measure (\<lambda>(b, s). stream_left s)" by simp
qed

declare read_string_loop.simps [simp del]

definition read_string :: "encoding \<Rightarrow> lexer \<Rightarrow> (tokptr \<times> lexer) res" where
  "read_string e s =
     bindr (read_string_loop make_buffer s) (\<lambda>(b, s1).
       let b' = buf_write b (CHR 0x00)
       in make_strtok (buf_body b') (buf_len b') e s1)"

lemma read_string_loop_left:
  "read_string_loop b s = Inr (b', s') \<Longrightarrow> stream_left s' \<le> stream_left s"
proof (induction "stream_left s" arbitrary: b s rule: less_induct)
  case less
  from less.prems obtain c s1 where rd: "readc s = Inr (c, s1)"
    and rest: "(if c = EOF then errorp (pos s1) ''unterminated string''
       else if c = ord CHR 0x22 then Inr (b, s1)
       else if c \<noteq> BACKSLASH then read_string_loop (buf_write b (int_char c)) s1
       else bindr (peek_ucn s1) (\<lambda>(isucs, s2).
              bindr (read_escaped_char s2) (\<lambda>(c', s3).
                if isucs then bindr (write_utf8 b (word_of_int c')) (\<lambda>b'. read_string_loop b' s3)
                else read_string_loop (buf_write b (int_char c')) s3))) = Inr (b', s')"
    by (subst (asm) read_string_loop.simps) (auto elim!: bindrE)
  note rl = readc_left[OF rd]
  from rest have ne: "c \<noteq> EOF" by (auto simp: errorp_def)
  consider (quote) "c = ord CHR 0x22" | (plain) "c \<noteq> ord CHR 0x22" "c \<noteq> BACKSLASH"
    | (esc) "c = BACKSLASH" by auto
  then show ?case
  proof cases
    case quote
    with ne rest rl show ?thesis by auto
  next
    case plain
    with ne rest have l: "read_string_loop (buf_write b (int_char c)) s1 = Inr (b', s')" by simp
    from rl ne have "stream_left s1 < stream_left s" by simp
    from less.hyps[OF this l] rl show ?thesis by simp
  next
    case esc
    with ne rest obtain isucs s2 c' s3 b1 where pk: "peek_ucn s1 = Inr (isucs, s2)"
      and re: "read_escaped_char s2 = Inr (c', s3)"
      and l: "read_string_loop b1 s3 = Inr (b', s')"
      by (auto elim!: bindrE split: if_splits)
    from rl ne peek_ucn_left[OF pk] read_escaped_char_left[OF re]
    have lt: "stream_left s3 < stream_left s" by simp
    from less.hyps[OF lt l] lt show ?thesis by simp
  qed
qed

lemma read_string_left:
  "read_string e s = Inr (t, s') \<Longrightarrow> stream_left s' \<le> stream_left s"
  unfolding read_string_def Let_def make_strtok_def
  by (fastforce elim!: bindrE dest!: read_string_loop_left make_token_left)

text \<open>
  \<^verbatim>\<open>read_ident\<close>; the loop carries the buffer. The character read is stored in the
  \<^verbatim>\<open>char\<close> parameter \<^verbatim>\<open>c\<close>, in which \<^verbatim>\<open>EOF\<close> becomes the byte 0xFF and passes the test
  \<^verbatim>\<open>c & 0x80\<close>. At the end of the input, where \<^verbatim>\<open>readc\<close> gives \<^verbatim>\<open>EOF\<close> again and again
  and leaves the stream as it is, the loop is therefore never left: it appends 0xFF to
  the buffer until memory is exhausted (\<open>Diverges\<close>).
\<close>

definition ident_char :: "int \<Rightarrow> bool" where
  "ident_char c = (isalnum c \<or> c AND 0x80 \<noteq> 0 \<or> c = ord CHR ''_'' \<or> c = ord CHR ''$'')"

function read_ident_loop :: "Buffer \<Rightarrow> lexer \<Rightarrow> (tokptr \<times> lexer) res" where
  "read_ident_loop b s =
     bindr (readc s) (\<lambda>(ci, s1).
       let c = int_char ci
       in if ident_char (schar_int c)
          then (if ci = EOF \<and> readc s1 = Inr (EOF, s1) then Inl Diverges
                else read_ident_loop (buf_write b c) s1)
          else bindr (if schar_int c = BACKSLASH then peek_ucn s1 else Inr (False, s1)) (\<lambda>(ucn, s2).
                 if ucn
                 then bindr (read_escaped_char s2) (\<lambda>(r, s3).
                        bindr (write_utf8 b (word_of_int r)) (\<lambda>b'. read_ident_loop b' s3))
                 else bindr (unreadc (schar_int c) s2) (\<lambda>s3.
                        make_ident (buf_body (buf_write b (CHR 0x00))) s3)))"
  by pat_completeness auto
termination
proof (relation "measure (\<lambda>(b, s). stream_left s)")
  show "wf (measure (\<lambda>(b, s). stream_left s))" by simp
next
  fix b :: Buffer and s :: lexer and x ci s1 c
  assume a: "readc s = Inr x" "(ci, s1) = x" "\<not> (ci = EOF \<and> readc s1 = Inr (EOF, s1))"
  then have rd: "readc s = Inr (ci, s1)" by simp
  have "stream_left s1 < stream_left s"
  proof (cases "ci = EOF")
    case False
    with readc_left[OF rd] show ?thesis by simp
  next
    case True
    with a(3) have "readc s1 \<noteq> Inr (EOF, s1)" by simp
    with readc_EOF_stable[of s s1] rd True have "stream_left s1 \<noteq> stream_left s" by auto
    with readc_left[OF rd] show ?thesis by simp
  qed
  then show "((buf_write b c, s1), b, s) \<in> measure (\<lambda>(b, s). stream_left s)" by simp
next
  fix b :: Buffer and s :: lexer and x ci s1 c xa ucn s2 xb r s3 b'
  assume a: "readc s = Inr x" "(ci, s1) = x" "c = int_char ci" "\<not> ident_char (schar_int c)"
    "(if schar_int c = BACKSLASH then peek_ucn s1 else Inr (False, s1)) = Inr xa" "(ucn, s2) = xa"
    "ucn" "read_escaped_char s2 = Inr xb" "(r, s3) = xb"
  then have rd: "readc s = Inr (ci, s1)" and re: "read_escaped_char s2 = Inr (r, s3)" by simp_all
  from a(3,4) have ne: "ci \<noteq> EOF" by (auto simp: ident_char_def int_char_EOF schar_int_def)
  from a(5,6,7) have "peek_ucn s1 = Inr (ucn, s2)" by (auto split: if_splits)
  from readc_left[OF rd] ne peek_ucn_left[OF this] read_escaped_char_left[OF re]
  show "((b', s3), b, s) \<in> measure (\<lambda>(b, s). stream_left s)" by simp
qed

declare read_ident_loop.simps [simp del]

definition read_ident :: "char \<Rightarrow> lexer \<Rightarrow> (tokptr \<times> lexer) res" where
  "read_ident c s = read_ident_loop (buf_write make_buffer c) s"

lemma read_ident_loop_left:
  "read_ident_loop b s = Inr (t, s') \<Longrightarrow> stream_left s' \<le> stream_left s"
proof (induction "stream_left s" arbitrary: b s rule: less_induct)
  case less
  from less.prems obtain ci s1 where rd: "readc s = Inr (ci, s1)"
    and rest: "(let c = int_char ci
       in if ident_char (schar_int c)
          then (if ci = EOF \<and> readc s1 = Inr (EOF, s1) then Inl Diverges
                else read_ident_loop (buf_write b c) s1)
          else bindr (if schar_int c = BACKSLASH then peek_ucn s1 else Inr (False, s1)) (\<lambda>(ucn, s2).
                 if ucn
                 then bindr (read_escaped_char s2) (\<lambda>(r, s3).
                        bindr (write_utf8 b (word_of_int r)) (\<lambda>b'. read_ident_loop b' s3))
                 else bindr (unreadc (schar_int c) s2) (\<lambda>s3.
                        make_ident (buf_body (buf_write b (CHR 0x00))) s3))) = Inr (t, s')"
    by (subst (asm) read_ident_loop.simps) (auto elim!: bindrE)
  note rl = readc_left[OF rd]
  let ?c = "int_char ci"
  show ?case
  proof (cases "ident_char (schar_int ?c)")
    case True
    with rest have stable: "\<not> (ci = EOF \<and> readc s1 = Inr (EOF, s1))"
      and l: "read_ident_loop (buf_write b ?c) s1 = Inr (t, s')"
      by (auto simp: Let_def split: if_splits)
    have lt: "stream_left s1 < stream_left s"
    proof (cases "ci = EOF")
      case False
      with rl show ?thesis by simp
    next
      case True
      with stable readc_EOF_stable[of s s1] rd have "stream_left s1 \<noteq> stream_left s" by auto
      with rl show ?thesis by simp
    qed
    from less.hyps[OF lt l] lt show ?thesis by simp
  next
    case False
    then have ne: "ci \<noteq> EOF" by (auto simp: ident_char_def int_char_EOF schar_int_def)
    from False rest obtain ucn s2 where pk: "(if schar_int ?c = BACKSLASH then peek_ucn s1 else Inr (False, s1)) = Inr (ucn, s2)"
      and rest2: "(if ucn
                 then bindr (read_escaped_char s2) (\<lambda>(r, s3).
                        bindr (write_utf8 b (word_of_int r)) (\<lambda>b'. read_ident_loop b' s3))
                 else bindr (unreadc (schar_int ?c) s2) (\<lambda>s3.
                        make_ident (buf_body (buf_write b (CHR 0x00))) s3)) = Inr (t, s')"
      by (auto simp: Let_def elim!: bindrE)
    from pk have pl: "stream_left s2 \<le> stream_left s1"
      by (auto split: if_splits dest: peek_ucn_left)
    show ?thesis
    proof (cases ucn)
      case True
      with rest2 obtain r s3 b1 where re: "read_escaped_char s2 = Inr (r, s3)"
        and l: "read_ident_loop b1 s3 = Inr (t, s')"
        by (auto elim!: bindrE)
      from rl ne pl read_escaped_char_left[OF re] have lt: "stream_left s3 < stream_left s" by simp
      from less.hyps[OF lt l] lt show ?thesis by simp
    next
      case False
      with rest2 obtain s3 where u: "unreadc (schar_int ?c) s2 = Inr s3"
        and m: "make_ident (buf_body (buf_write b (CHR 0x00))) s3 = Inr (t, s')"
        by (auto elim!: bindrE)
      from unreadc_left[OF u] make_token_left[OF m[unfolded make_ident_def]] rl ne pl
      show ?thesis by simp
    qed
  qed
qed

lemma read_ident_left:
  "read_ident c s = Inr (t, s') \<Longrightarrow> stream_left s' \<le> stream_left s"
  unfolding read_ident_def by (rule read_ident_loop_left)

subsection \<open>Punctuators\<close>

text \<open>\<^verbatim>\<open>if (next(e)) ... else ...\<close>, the form in which most of the lookahead is written.\<close>

definition if_next ::
  "int \<Rightarrow> lexer \<Rightarrow> (lexer \<Rightarrow> 'a res) \<Rightarrow> (lexer \<Rightarrow> 'a res) \<Rightarrow> 'a res" where
  "if_next e s yes no = bindr (next_char e s) (\<lambda>(b, s1). if b then yes s1 else no s1)"

lemma if_nextE:
  assumes "if_next e s yes no = Inr y"
  obtains s1 where "next_char e s = Inr (True, s1)" "yes s1 = Inr y"
    | s1 where "next_char e s = Inr (False, s1)" "no s1 = Inr y"
  using assms unfolding if_next_def by (auto elim!: bindrE split: if_splits)

text \<open>\<^verbatim>\<open>read_hash_digraph\<close>; \<open>None\<close> is the null pointer it returns.\<close>

definition read_hash_digraph :: "lexer \<Rightarrow> (tokptr option \<times> lexer) res" where
  "read_hash_digraph s =
     if_next (ord CHR ''>'') s
       (\<lambda>s1. bindr (make_keyword (Punct (ord CHR ''}'')) s1) (\<lambda>(t, s2). Inr (Some t, s2)))
       (\<lambda>s1. if_next (ord CHR '':'') s1
          (\<lambda>s2. bindr
             (if_next (ord CHR ''%'') s2
                (\<lambda>s3. if_next (ord CHR '':'') s3
                   (\<lambda>s4. bindr (make_keyword KHASHHASH s4) (\<lambda>(t, s5). Inr (Some t, s5)))
                   (\<lambda>s4. bindr (unreadc (ord CHR ''%'') s4) (\<lambda>s5. Inr (None, s5))))
                (\<lambda>s3. Inr (None, s3)))
             (\<lambda>(r, s3). case r of
                 Some t \<Rightarrow> Inr (Some t, s3)
               | None \<Rightarrow> bindr (make_keyword (Punct (ord CHR ''#'')) s3) (\<lambda>(t, s4). Inr (Some t, s4))))
          (\<lambda>s2. Inr (None, s2)))"

definition read_rep :: "int \<Rightarrow> keyword_id \<Rightarrow> keyword_id \<Rightarrow> lexer \<Rightarrow> (tokptr \<times> lexer) res" where
  "read_rep expect t1 els s =
     bindr (next_char expect s) (\<lambda>(b, s1). make_keyword (if b then t1 else els) s1)"

definition read_rep2 ::
  "int \<Rightarrow> keyword_id \<Rightarrow> int \<Rightarrow> keyword_id \<Rightarrow> keyword_id \<Rightarrow> lexer \<Rightarrow> (tokptr \<times> lexer) res" where
  "read_rep2 expect1 t1 expect2 t2 els s =
     if_next expect1 s
       (\<lambda>s1. make_keyword t1 s1)
       (\<lambda>s1. bindr (next_char expect2 s1) (\<lambda>(b, s2). make_keyword (if b then t2 else els) s2))"

lemma make_keyword_left:
  "make_keyword k s = Inr (t, s') \<Longrightarrow> stream_left s' = stream_left s"
  unfolding make_keyword_def by (rule make_token_left)

lemma unreadc_left':
  "unreadc c s = Inr s' \<Longrightarrow> stream_left s' \<le> Suc (stream_left s)"
  by (drule unreadc_left) simp

lemma next_char_True_left:
  "next_char e s = Inr (True, s') \<Longrightarrow> e \<noteq> EOF \<Longrightarrow> stream_left s' < stream_left s"
  by (drule next_char_left) simp

lemma next_char_left':
  "next_char e s = Inr (b, s') \<Longrightarrow> stream_left s' \<le> stream_left s"
  by (drule next_char_left) simp

lemma if_next_leftE:
  assumes "if_next e s yes no = Inr y" and "e \<noteq> EOF"
  obtains s1 where "stream_left s1 < stream_left s" "yes s1 = Inr y"
    | s1 where "stream_left s1 \<le> stream_left s" "no s1 = Inr y"
  using assms(1)
proof (cases rule: if_nextE)
  case (1 s1)
  with next_char_True_left[OF 1(1) assms(2)] that(1) show ?thesis by blast
next
  case (2 s1)
  with next_char_left'[OF 2(1)] that(2) show ?thesis by blast
qed

lemma read_hash_digraph_left:
  "read_hash_digraph s = Inr (r, s') \<Longrightarrow> stream_left s' \<le> stream_left s"
  unfolding read_hash_digraph_def
  by (elim if_next_leftE bindrE)
     (auto split: option.splits prod.splits elim!: if_next_leftE bindrE
           dest!: make_keyword_left unreadc_left')

lemma read_rep_left:
  "read_rep e t1 els s = Inr (t, s') \<Longrightarrow> stream_left s' \<le> stream_left s"
  unfolding read_rep_def
  by (auto elim!: bindrE dest!: make_keyword_left next_char_left')

lemma read_rep2_left:
  "read_rep2 e1 t1 e2 t2 els s = Inr (t, s') \<Longrightarrow> stream_left s' \<le> stream_left s"
  unfolding read_rep2_def
  by (auto elim!: bindrE if_nextE dest!: make_keyword_left next_char_left')

subsection \<open>Reading a token\<close>

text \<open>
  The case labels of \<^verbatim>\<open>do_read_token\<close> under which an identifier starts: the letters
  except \<open>L\<close>, \<open>U\<close> and \<open>u\<close>, the underscore, the dollar sign and the bytes 0x80 to 0xFD.
\<close>

definition ident_start :: "int \<Rightarrow> bool" where
  "ident_start c =
     ((ord CHR ''a'' \<le> c \<and> c \<le> ord CHR ''t'') \<or> (ord CHR ''v'' \<le> c \<and> c \<le> ord CHR ''z'') \<or>
      (ord CHR ''A'' \<le> c \<and> c \<le> ord CHR ''K'') \<or> (ord CHR ''M'' \<le> c \<and> c \<le> ord CHR ''T'') \<or>
      (ord CHR ''V'' \<le> c \<and> c \<le> ord CHR ''Z'') \<or> c = ord CHR ''_'' \<or> c = ord CHR ''$'' \<or>
      (0x80 \<le> c \<and> c \<le> 0xFD))"

text \<open>
  The \<^verbatim>\<open>switch\<close> of \<^verbatim>\<open>do_read_token\<close> on the character \<open>c\<close> that has been read, in the
  order of its cases.
\<close>

definition read_token_switch :: "int \<Rightarrow> lexer \<Rightarrow> (tokptr \<times> lexer) res" where
  "read_token_switch c s =
     (if c = NL then Inr (NEWLINE_TOKEN, s)
      else if c = ord CHR '':'' then
        bindr (next_char (ord CHR ''>'') s) (\<lambda>(b, s1).
          make_keyword (if b then Punct (ord CHR '']'') else Punct (ord CHR '':'')) s1)
      else if c = ord CHR ''#'' then
        bindr (next_char (ord CHR ''#'') s) (\<lambda>(b, s1).
          make_keyword (if b then KHASHHASH else Punct (ord CHR ''#'')) s1)
      else if c = ord CHR ''+'' then
        read_rep2 (ord CHR ''+'') OP_INC (ord CHR ''='') OP_A_ADD (Punct (ord CHR ''+'')) s
      else if c = ord CHR ''*'' then read_rep (ord CHR ''='') OP_A_MUL (Punct (ord CHR ''*'')) s
      else if c = ord CHR ''='' then read_rep (ord CHR ''='') OP_EQ (Punct (ord CHR ''='')) s
      else if c = ord CHR ''!'' then read_rep (ord CHR ''='') OP_NE (Punct (ord CHR ''!'')) s
      else if c = ord CHR ''&'' then
        read_rep2 (ord CHR ''&'') OP_LOGAND (ord CHR ''='') OP_A_AND (Punct (ord CHR ''&'')) s
      else if c = ord CHR ''|'' then
        read_rep2 (ord CHR ''|'') OP_LOGOR (ord CHR ''='') OP_A_OR (Punct (ord CHR ''|'')) s
      else if c = ord CHR ''^'' then read_rep (ord CHR ''='') OP_A_XOR (Punct (ord CHR ''^'')) s
      else if c = ord CHR 0x22 then read_string ENC_NONE s
      else if c = ord CHR 0x27 then read_char ENC_NONE s
      else if c = ord CHR ''/'' then
        bindr (next_char (ord CHR ''='') s) (\<lambda>(b, s1).
          make_keyword (if b then OP_A_DIV else Punct (ord CHR ''/'')) s1)
      else if ident_start c then read_ident (int_char c) s
      else if ord CHR ''0'' \<le> c \<and> c \<le> ord CHR ''9'' then read_number (int_char c) s
      else if c = ord CHR ''L'' \<or> c = ord CHR ''U'' then
        (let e = (if c = ord CHR ''L'' then ENC_WCHAR else ENC_CHAR32)
         in if_next (ord CHR 0x22) s (read_string e)
              (\<lambda>s1. if_next (ord CHR 0x27) s1 (read_char e) (read_ident (int_char c))))
      else if c = ord CHR ''u'' then
        if_next (ord CHR 0x22) s (read_string ENC_CHAR16)
          (\<lambda>s1. if_next (ord CHR 0x27) s1 (read_char ENC_CHAR16)
             (\<lambda>s2. if_next (ord CHR ''8'') s2
                (\<lambda>s3. if_next (ord CHR 0x22) s3 (read_string ENC_UTF8)
                   (\<lambda>s4. bindr (unreadc (ord CHR ''8'') s4) (read_ident (int_char c))))
                (read_ident (int_char c))))
      else if c = ord CHR ''.'' then
        bindr (peek s) (\<lambda>(d, s1).
          if isdigit d then read_number (int_char c) s1
          else if_next (ord CHR ''.'') s1
                 (\<lambda>s2. if_next (ord CHR ''.'') s2
                    (make_keyword KELLIPSIS)
                    (make_ident (''..'' @ [CHR 0x00])))
                 (make_keyword (Punct (ord CHR ''.''))))
      else if c = ord CHR ''('' \<or> c = ord CHR '')'' \<or> c = ord CHR '','' \<or> c = ord CHR '';'' \<or>
              c = ord CHR ''['' \<or> c = ord CHR '']'' \<or> c = ord CHR ''{'' \<or> c = ord CHR ''}'' \<or>
              c = ord CHR ''?'' \<or> c = ord CHR ''~'' then make_keyword (Punct c) s
      else if c = ord CHR ''-'' then
        if_next (ord CHR ''-'') s (make_keyword OP_DEC)
          (\<lambda>s1. if_next (ord CHR ''>'') s1 (make_keyword OP_ARROW)
             (\<lambda>s2. if_next (ord CHR ''='') s2 (make_keyword OP_A_SUB)
                (make_keyword (Punct (ord CHR ''-'')))))
      else if c = ord CHR ''<'' then
        if_next (ord CHR ''<'') s (read_rep (ord CHR ''='') OP_A_SAL OP_SAL)
          (\<lambda>s1. if_next (ord CHR ''='') s1 (make_keyword OP_LE)
             (\<lambda>s2. if_next (ord CHR '':'') s2 (make_keyword (Punct (ord CHR ''['')))
                (\<lambda>s3. if_next (ord CHR ''%'') s3 (make_keyword (Punct (ord CHR ''{'')))
                   (make_keyword (Punct (ord CHR ''<''))))))
      else if c = ord CHR ''>'' then
        if_next (ord CHR ''='') s (make_keyword OP_GE)
          (\<lambda>s1. if_next (ord CHR ''>'') s1 (read_rep (ord CHR ''='') OP_A_SAR OP_SAR)
             (make_keyword (Punct (ord CHR ''>''))))
      else if c = ord CHR ''%'' then
        bindr (read_hash_digraph s) (\<lambda>(tok, s1).
          case tok of
            Some t \<Rightarrow> Inr (t, s1)
          | None \<Rightarrow> read_rep (ord CHR ''='') OP_A_MOD (Punct (ord CHR ''%'')) s1)
      else if c = EOF then Inr (EOF_TOKEN, s)
      else make_invalid (int_char c) s)"

definition do_read_token :: "lexer \<Rightarrow> (tokptr \<times> lexer) res" where
  "do_read_token s =
     bindr (skip_space s) (\<lambda>(sp, s1).
       if sp then Inr (SPACE_TOKEN, s1)
       else bindr (mark s1) (\<lambda>s2.
              bindr (readc s2) (\<lambda>(c, s3). read_token_switch c s3)))"

lemma make_ident_left:
  "make_ident p s = Inr (t, s') \<Longrightarrow> stream_left s' = stream_left s"
  unfolding make_ident_def by (rule make_token_left)

lemma make_invalid_left:
  "make_invalid c s = Inr (t, s') \<Longrightarrow> stream_left s' = stream_left s"
  unfolding make_invalid_def by (rule make_token_left)

lemma if_next_left:
  assumes "if_next e s yes no = Inr (t, s')"
    and "\<And>s1 t s'. yes s1 = Inr (t, s') \<Longrightarrow> stream_left s' \<le> stream_left s1"
    and "\<And>s1 t s'. no s1 = Inr (t, s') \<Longrightarrow> stream_left s' \<le> stream_left s1"
  shows "stream_left s' \<le> stream_left s"
  using assms(1)
proof (cases rule: if_nextE)
  case (1 s1)
  with next_char_left'[OF 1(1)] assms(2)[OF 1(2)] show ?thesis by simp
next
  case (2 s1)
  with next_char_left'[OF 2(1)] assms(3)[OF 2(2)] show ?thesis by simp
qed

lemma peek_left': "peek s = Inr (r, s') \<Longrightarrow> stream_left s' \<le> stream_left s"
  by (rule peek_left)

lemma read_token_switch_left:
  "read_token_switch c s = Inr (t, s') \<Longrightarrow> stream_left s' \<le> stream_left s"
  unfolding read_token_switch_def Let_def
  apply (simp only: split: if_splits)
  apply (auto elim!: bindrE if_next_leftE split: option.splits if_splits
              dest!: next_char_left' make_keyword_left make_ident_left make_invalid_left
                     read_rep_left read_rep2_left read_string_left read_char_left
                     read_ident_left read_number_left unreadc_left' peek_left'
                     read_hash_digraph_left)
  done

lemma mark_left: "mark s = Inr s' \<Longrightarrow> stream_left s' = stream_left s"
  unfolding mark_def get_pos_def current_file_def
  by (auto elim!: bindrE split: if_splits simp: stream_left_def)

lemma do_read_token_left:
  assumes "do_read_token s = Inr (t, s')"
  shows "stream_left s' \<le> stream_left s \<and> (t \<noteq> EOF_TOKEN \<longrightarrow> stream_left s' < stream_left s)"
proof -
  from assms obtain sp s1 where sk: "skip_space s = Inr (sp, s1)"
    and rest: "(if sp then Inr (SPACE_TOKEN, s1)
       else bindr (mark s1) (\<lambda>s2.
              bindr (readc s2) (\<lambda>(c, s3). read_token_switch c s3))) = Inr (t, s')"
    unfolding do_read_token_def by (auto elim!: bindrE)
  note sl = skip_space_left[OF sk]
  show ?thesis
  proof (cases sp)
    case True
    with rest sl show ?thesis by auto
  next
    case False
    with rest obtain s2 c s3 where m: "mark s1 = Inr s2" and rd: "readc s2 = Inr (c, s3)"
      and sw: "read_token_switch c s3 = Inr (t, s')"
      by (auto elim!: bindrE)
    note ml = mark_left[OF m] and rl = readc_left[OF rd] and swl = read_token_switch_left[OF sw]
    show ?thesis
    proof (cases "c = EOF")
      case True
      with sw have "t = EOF_TOKEN" by (simp add: read_token_switch_def ident_start_def)
      with sl ml rl swl show ?thesis by simp
    next
      case False
      with sl ml rl swl show ?thesis by simp
    qed
  qed
qed

subsection \<open>The token buffer stack and \<^verbatim>\<open>lex\<close>\<close>

definition buffer_empty :: "lexer \<Rightarrow> bool res" where
  "buffer_empty s =
     (if length (buffers s) = 1
      then (if buffers s = [] then Inl (Assertion ''vec->len > 0'')
            else Inr (length (hd (buffers s)) = 0))
      else Inr False)"

definition is_keyword :: "lexer \<Rightarrow> tokptr \<Rightarrow> keyword_id \<Rightarrow> bool" where
  "is_keyword s tok c = (kind (tok_at s tok) = TKEYWORD \<and> kid (tok_at s tok) = c)"

definition token_buffer_stash :: "tokptr list \<Rightarrow> lexer \<Rightarrow> lexer" where
  "token_buffer_stash tbuf s = s\<lparr>buffers := buffers s @ [tbuf]\<rparr>"

definition token_buffer_unstash :: "lexer \<Rightarrow> lexer res" where
  "token_buffer_unstash s =
     (if buffers s = [] then Inl (Assertion ''vec->len > 0'')
      else Inr (s\<lparr>buffers := butlast (buffers s)\<rparr>))"

definition unget_token :: "tokptr \<Rightarrow> lexer \<Rightarrow> lexer res" where
  "unget_token tok s =
     (if kind (tok_at s tok) = TEOF then Inr s
      else if buffers s = [] then Inl (Assertion ''vec->len > 0'')
      else Inr (s\<lparr>buffers := butlast (buffers s) @ [last (buffers s) @ [tok]]\<rparr>))"

lemma stream_left_updates [simp]:
  "stream_left (buffers_update gb s) = stream_left s"
  "stream_left (pos_update gp s) = stream_left s"
  "stream_left (heap_update gh s) = stream_left s"
  "stream_left (space_token_update gt s) = stream_left s"
  "stream_left (newline_token_update gt s) = stream_left s"
  "stream_left (eof_token_update gt s) = stream_left s"
  "stream_left (warning_is_error_update gw s) = stream_left s"
  by (simp_all add: stream_left_def)

lemma tok_update_left [simp]: "stream_left (tok_update t g s) = stream_left s"
  by (cases t) simp_all

text \<open>
  The \<^verbatim>\<open>while\<close> loop of \<^verbatim>\<open>lex\<close>, which carries the pointer \<^verbatim>\<open>tok\<close>.
\<close>

function lex_loop :: "tokptr \<Rightarrow> lexer \<Rightarrow> (tokptr \<times> lexer) res" where
  "lex_loop tok s =
     (if kind (tok_at s tok) = TSPACE
      then bindr (do_read_token s) (\<lambda>(tok', s1).
             lex_loop tok' (tok_update tok' (\<lambda>t. t\<lparr>space := True\<rparr>) s1))
      else Inr (tok, s))"
  by pat_completeness auto
termination
proof (relation "measure (\<lambda>(tok, s). 2 * stream_left s + (if kind (tok_at s tok) = TSPACE then 1 else 0))")
  show "wf (measure (\<lambda>(tok, s). 2 * stream_left s + (if kind (tok_at s tok) = TSPACE then 1 else 0)))"
    by simp
next
  fix tok :: tokptr and s :: lexer and x tok' s1
  assume a: "kind (tok_at s tok) = TSPACE" "do_read_token s = Inr x" "(tok', s1) = x"
  then have d: "do_read_token s = Inr (tok', s1)" by simp
  let ?s1 = "tok_update tok' (\<lambda>t. t\<lparr>space := True\<rparr>) s1"
  have "2 * stream_left ?s1 + (if kind (tok_at ?s1 tok') = TSPACE then 1 else 0)
        < 2 * stream_left s + 1"
  proof (cases "tok' = EOF_TOKEN")
    case True
    with do_read_token_left[OF d] show ?thesis by simp
  next
    case False
    with do_read_token_left[OF d] show ?thesis by simp
  qed
  with a(1) show "((tok', ?s1), tok, s)
        \<in> measure (\<lambda>(tok, s). 2 * stream_left s + (if kind (tok_at s tok) = TSPACE then 1 else 0))"
    by simp
qed

declare lex_loop.simps [simp del]

definition lex :: "lexer \<Rightarrow> (tokptr \<times> lexer) res" where
  "lex s =
     (if buffers s = [] then Inl (Assertion ''vec->len > 0'')
      else
        let tbuf = last (buffers s)
        in if length tbuf > 0
           then Inr (last tbuf, s\<lparr>buffers := butlast (buffers s) @ [butlast tbuf]\<rparr>)
           else if length (buffers s) > 1 then Inr (EOF_TOKEN, s)
           else bindr (current_file s) (\<lambda>f.
                  let b = (column f = 1)
                  in bindr (do_read_token s) (\<lambda>(tok0, s1).
                       bindr (lex_loop tok0 s1) (\<lambda>(tok, s2).
                         Inr (tok, tok_update tok (\<lambda>t. t\<lparr>bol := b\<rparr>) s2)))))"

lemma lex_loop_left:
  "lex_loop tok s = Inr (t, s') \<Longrightarrow> stream_left s' \<le> stream_left s"
proof (induction tok s rule: lex_loop.induct)
  case (1 tok s)
  show ?case
  proof (cases "kind (tok_at s tok) = TSPACE")
    case False
    with "1.prems" show ?thesis by (subst (asm) lex_loop.simps) simp
  next
    case True
    with "1.prems" obtain tok' s1 where d: "do_read_token s = Inr (tok', s1)"
      and l: "lex_loop tok' (tok_update tok' (\<lambda>t. t\<lparr>space := True\<rparr>) s1) = Inr (t, s')"
      by (subst (asm) lex_loop.simps) (auto elim!: bindrE)
    from "1.IH"[OF True d refl l] do_read_token_left[OF d] show ?thesis by simp
  qed
qed

lemma lex_left:
  "lex s = Inr (t, s') \<Longrightarrow> stream_left s' \<le> stream_left s"
  unfolding lex_def Let_def
  by (auto split: if_splits elim!: bindrE dest!: do_read_token_left lex_loop_left)

subsection \<open>Skipping a conditional group\<close>

text \<open>
  Modelled from the spec: \<^verbatim>\<open>is_ident\<close>, which the preprocessor defines (cpp.c is not
  among the sources): the token is an identifier and its spelling is the given string.
\<close>

definition is_ident :: "lexer \<Rightarrow> tokptr \<Rightarrow> string \<Rightarrow> bool" where
  "is_ident s tok str =
     (kind (tok_at s tok) = TIDENT \<and>
      (case sval (tok_at s tok) of
         None \<Rightarrow> False
       | Some v \<Rightarrow> takeWhile (\<lambda>c. c \<noteq> CHR 0x00) v = str))"

text \<open>\<^verbatim>\<open>skip_cond_incl\<close>; the loop carries the variable \<^verbatim>\<open>nest\<close>.\<close>

function skip_cond_incl_loop :: "int \<Rightarrow> lexer \<Rightarrow> lexer res" where
  "skip_cond_incl_loop nest s =
     bindr (current_file s) (\<lambda>f.
       let b = (column f = 1)
       in bindr (skip_space s) (\<lambda>(sp, s1).
            bindr (readc s1) (\<lambda>(c, s2).
              if c = EOF then Inr s2
              else if c = ord CHR 0x27 then bindr (skip_char s2) (\<lambda>s3. skip_cond_incl_loop nest s3)
              else if c = ord CHR 0x22 then bindr (skip_string s2) (\<lambda>s3. skip_cond_incl_loop nest s3)
              else if c \<noteq> ord CHR ''#'' \<or> \<not> b then skip_cond_incl_loop nest s2
              else bindr (current_file s2) (\<lambda>f2.
                     let col = column f2 - 1
                     in bindr (lex s2) (\<lambda>(tok, s3).
                          if kind (tok_at s3 tok) \<noteq> TIDENT then skip_cond_incl_loop nest s3
                          else if nest = 0 \<and> (is_ident s3 tok ''else'' \<or> is_ident s3 tok ''elif'' \<or>
                                               is_ident s3 tok ''endif'')
                          then bindr (unget_token tok s3) (\<lambda>s4.
                                 bindr (make_keyword (Punct (ord CHR ''#'')) s4) (\<lambda>(hash, s5).
                                   let s6 = tok_update hash (\<lambda>t. t\<lparr>bol := True\<rparr>) s5;
                                       s7 = tok_update hash (\<lambda>t. t\<lparr>tcolumn := col\<rparr>) s6
                                   in unget_token hash s7))
                          else
                            let nest' =
                                  (if is_ident s3 tok ''if'' \<or> is_ident s3 tok ''ifdef'' \<or>
                                      is_ident s3 tok ''ifndef'' then nest + 1
                                   else if nest \<noteq> 0 \<and> is_ident s3 tok ''endif'' then nest - 1
                                   else nest)
                            in bindr (skip_line s3) (\<lambda>s4. skip_cond_incl_loop nest' s4))))))"
  by pat_completeness auto
termination
proof (relation "measure (\<lambda>(n, s). stream_left s)", goal_cases)
  case 1
  show ?case by simp
next
  case (2 nest s f b x sp s1 xa c s2 s3)
  then have "skip_space s = Inr (sp, s1)" "readc s1 = Inr (c, s2)" "skip_char s2 = Inr s3" "c \<noteq> EOF"
    by simp_all
  from skip_space_left[OF this(1)] readc_left[OF this(2)] skip_char_left[OF this(3)] this(4)
  show ?case by simp
next
  case (3 nest s f b x sp s1 xa c s2 s3)
  then have "skip_space s = Inr (sp, s1)" "readc s1 = Inr (c, s2)" "skip_string s2 = Inr s3" "c \<noteq> EOF"
    by simp_all
  from skip_space_left[OF this(1)] readc_left[OF this(2)] skip_string_left[OF this(3)] this(4)
  show ?case by simp
next
  case (4 nest s f b x sp s1 xa c s2)
  then have "skip_space s = Inr (sp, s1)" "readc s1 = Inr (c, s2)" "c \<noteq> EOF"
    by simp_all
  from skip_space_left[OF this(1)] readc_left[OF this(2)] this(3)
  show ?case by simp
next
  case (5 nest s f b x sp s1 xa c s2 f2 col xb tok s3)
  then have "skip_space s = Inr (sp, s1)" "readc s1 = Inr (c, s2)" "lex s2 = Inr (tok, s3)" "c \<noteq> EOF"
    by simp_all
  from skip_space_left[OF this(1)] readc_left[OF this(2)] lex_left[OF this(3)] this(4)
  show ?case by simp
next
  case (6 nest s f b x sp s1 xa c s2 f2 col xb tok s3 nest' s4)
  then have "skip_space s = Inr (sp, s1)" "readc s1 = Inr (c, s2)" "lex s2 = Inr (tok, s3)" "c \<noteq> EOF"
    "skip_line s3 = Inr s4"
    by simp_all
  from skip_space_left[OF this(1)] readc_left[OF this(2)] lex_left[OF this(3)] this(4)
    skip_line_left[OF this(5)]
  show ?case by simp
qed

declare skip_cond_incl_loop.simps [simp del]

definition skip_cond_incl :: "lexer \<Rightarrow> lexer res" where
  "skip_cond_incl s = skip_cond_incl_loop 0 s"

text \<open>
  \<^verbatim>\<open>lex_init\<close>, given what \<^verbatim>\<open>fopen\<close> finds: \<open>None\<close> when the file cannot be opened, else
  the bytes of the file and its modification time. For the name \<^verbatim>\<open>-\<close> they are those of
  the standard input.
\<close>

definition lex_init :: "string \<Rightarrow> (string \<times> int) option \<Rightarrow> lexer \<Rightarrow> lexer res" where
  "lex_init filename opened s =
     (let s1 = s\<lparr>buffers := buffers s @ [[]]\<rparr>
      in if filename = ''-''
         then (case opened of
                 None \<Rightarrow> Inl (Error ''fstat failed: %s'')
               | Some (bytes, mt) \<Rightarrow> Inr (stream_push (make_file bytes ''-'' mt) s1))
         else (case opened of
                 None \<Rightarrow> Inl (Error ''Cannot open %s: %s'')
               | Some (bytes, mt) \<Rightarrow> Inr (stream_push (make_file bytes filename mt) s1)))"

text \<open>The tokens that successive calls of \<^verbatim>\<open>lex\<close> return, as they are at their return.\<close>

fun lex_n :: "nat \<Rightarrow> lexer \<Rightarrow> (Token list \<times> lexer) res" where
  "lex_n 0 s = Inr ([], s)"
| "lex_n (Suc n) s =
     bindr (lex s) (\<lambda>(tok, s1).
       bindr (lex_n n s1) (\<lambda>(toks, s2). Inr (tok_at s1 tok # toks, s2)))"

section \<open>Properties of the lexer\<close>

text \<open>
  The state in which the lexer finds itself after \<^verbatim>\<open>lex_init\<close> on a file \<^verbatim>\<open>t.c\<close> of the
  given bytes.
\<close>

definition lexer_on :: "string \<Rightarrow> lexer" where
  "lexer_on bytes =
     lexer0\<lparr>files := [make_file bytes ''t.c'' 0], buffers := [[]]\<rparr>"

lemma lex_init_lexer_on:
  "lex_init ''t.c'' (Some (bytes, 0)) lexer0 = Inr (lexer_on bytes)"
  by (simp add: lex_init_def lexer_on_def lexer0_def stream_push_def Let_def)

text \<open>
  C2: with more than one list on the token buffer stack and the top list empty, \<^verbatim>\<open>lex\<close>
  returns the static EOF token and leaves the whole state as it is, so that no character
  is read and every later call does the same; with a top list that is not empty, \<^verbatim>\<open>lex\<close>
  returns the last token of that list and removes it from the list.
\<close>

theorem lex_token_buffer_stack:
  "(1 < length (buffers s) \<and> last (buffers s) = [] \<longrightarrow> lex s = Inr (EOF_TOKEN, s)) \<and>
   (buffers s \<noteq> [] \<and> last (buffers s) \<noteq> [] \<longrightarrow>
      lex s = Inr (last (last (buffers s)),
                   s\<lparr>buffers := butlast (buffers s) @ [butlast (last (buffers s))]\<rparr>))"
  by (auto simp: lex_def Let_def)

theorem lex_token_buffer_stack_witness:
  "1 < length (buffers (token_buffer_stash [] (lexer_on ''x''))) \<and>
   last (buffers (token_buffer_stash [] (lexer_on ''x''))) = [] \<and>
   lex (token_buffer_stash [] (lexer_on ''x'')) =
     Inr (EOF_TOKEN, token_buffer_stash [] (lexer_on ''x'')) \<and>
   buffers (token_buffer_stash [NEWLINE_TOKEN, SPACE_TOKEN] (lexer_on ''x'')) \<noteq> [] \<and>
   last (buffers (token_buffer_stash [NEWLINE_TOKEN, SPACE_TOKEN] (lexer_on ''x''))) \<noteq> [] \<and>
   lex (token_buffer_stash [NEWLINE_TOKEN, SPACE_TOKEN] (lexer_on ''x'')) =
     Inr (SPACE_TOKEN, token_buffer_stash [NEWLINE_TOKEN] (lexer_on ''x''))"
proof -
  let ?s = "token_buffer_stash [] (lexer_on ''x'')"
  let ?t = "token_buffer_stash [NEWLINE_TOKEN, SPACE_TOKEN] (lexer_on ''x'')"
  have a: "1 < length (buffers ?s) \<and> last (buffers ?s) = []"
    by (simp add: token_buffer_stash_def lexer_on_def)
  have b: "buffers ?t \<noteq> [] \<and> last (buffers ?t) \<noteq> []"
    by (simp add: token_buffer_stash_def lexer_on_def)
  from lex_token_buffer_stack[of ?s] lex_token_buffer_stack[of ?t] a b
  show ?thesis
    by (simp add: token_buffer_stash_def lexer_on_def)
qed

text \<open>
  C3: when \<^verbatim>\<open>get\<close> delivers a backslash and then a newline, \<^verbatim>\<open>readc\<close> returns neither: it
  consumes both and gives what it gives in the state behind them, in which the line
  counter of the file is one more. And the input \<^verbatim>\<open>a\\<close>, newline, \<^verbatim>\<open>b\<close>, newline is read as
  the identifier \<open>ab\<close>, at line 1 and column 1 with \<open>bol\<close> set, then a newline token, then
  the EOF token.
\<close>

theorem backslash_newline_spliced:
  "(\<forall>s s1 s2 :: lexer.
      get s = Inr (BACKSLASH, s1) \<and> get s1 = Inr (NL, s2) \<longrightarrow>
        readc s = readc s2 \<and> files s \<noteq> [] \<and> files s2 \<noteq> [] \<and>
        line (last (files s2)) = line (last (files s)) + 1) \<and>
   bindr (lex_n 3 (lexer_on [CHR ''a'', CHR 0x5C, CHR 0x0A, CHR ''b'', CHR 0x0A]))
     (\<lambda>(ts, s'). Inr (map kind ts, sval (ts ! 0), tline (ts ! 0), tcolumn (ts ! 0), bol (ts ! 0)))
   = Inr ([TIDENT, TNEWLINE, TEOF], Some [CHR ''a'', CHR ''b'', CHR 0x00], 1, 1, True)"
proof (intro conjI allI impI)
  fix s s1 s2 :: lexer
  assume a: "get s = Inr (BACKSLASH, s1) \<and> get s1 = Inr (NL, s2)"
  then show "readc s = readc s2"
    by (subst readc.simps) simp
  from a show "files s \<noteq> []" by (auto simp: get_eq split: if_splits)
  from a have ne1: "files s1 \<noteq> []" by (auto simp: get_eq split: if_splits)
  from a show "files s2 \<noteq> []" by (auto simp: get_eq split: if_splits)
  from a have f1: "fst (get_char (last (files s))) = BACKSLASH"
    "last (files s1) = advance BACKSLASH (snd (get_char (last (files s))))"
    by (auto simp: get_eq split: if_splits)
  from a ne1 have f2: "fst (get_char (last (files s1))) = NL"
    "last (files s2) = advance NL (snd (get_char (last (files s1))))"
    by (auto simp: get_eq split: if_splits)
  have keep: "line (snd (get_char f)) = line f" for f
    by (simp add: get_char_def readc_file_def readc_string_def Let_def split_beta)
  from f1 f2 show "line (last (files s2)) = line (last (files s)) + 1"
    by (simp add: advance_def keep)
next
  show "bindr (lex_n 3 (lexer_on [CHR ''a'', CHR 0x5C, CHR 0x0A, CHR ''b'', CHR 0x0A]))
     (\<lambda>(ts, s'). Inr (map kind ts, sval (ts ! 0), tline (ts ! 0), tcolumn (ts ! 0), bol (ts ! 0)))
   = Inr ([TIDENT, TNEWLINE, TEOF], Some [CHR ''a'', CHR ''b'', CHR 0x00], 1, 1, True)"
    by code_simp
qed

theorem backslash_newline_spliced_witness:
  "get (lexer_on [CHR 0x5C, CHR 0x0A, CHR ''b'']) =
     Inr (BACKSLASH, snd (projr (get (lexer_on [CHR 0x5C, CHR 0x0A, CHR ''b''])))) \<and>
   get (snd (projr (get (lexer_on [CHR 0x5C, CHR 0x0A, CHR ''b''])))) =
     Inr (NL, snd (projr (get (snd (projr (get (lexer_on [CHR 0x5C, CHR 0x0A, CHR ''b''])))))))
   \<and>
   readc (lexer_on [CHR 0x5C, CHR 0x0A, CHR ''b'']) =
     readc (snd (projr (get (snd (projr (get (lexer_on [CHR 0x5C, CHR 0x0A, CHR ''b''])))))))
   \<and>
   fst (projr (readc (lexer_on [CHR 0x5C, CHR 0x0A, CHR ''b'']))) = ord CHR ''b'' \<and>
   line (last (files (snd (projr (get (snd (projr (get (lexer_on [CHR 0x5C, CHR 0x0A, CHR ''b''])))))))))
     = 2"
proof -
  let ?s = "lexer_on [CHR 0x5C, CHR 0x0A, CHR ''b'']"
  let ?s1 = "snd (projr (get ?s))"
  let ?s2 = "snd (projr (get ?s1))"
  have g1: "get ?s = Inr (BACKSLASH, ?s1)" by code_simp
  have g2: "get ?s1 = Inr (NL, ?s2)" by code_simp
  have l: "line (last (files ?s)) = 1" by code_simp
  have c: "fst (projr (readc ?s)) = ord CHR ''b''" by code_simp
  from backslash_newline_spliced[THEN conjunct1, rule_format, of ?s ?s1 ?s2] g1 g2 l c
  show ?thesis by simp
qed

subsection \<open>Token pointers that \<^verbatim>\<open>lex\<close> returns\<close>

text \<open>A pointer is valid when it points to a static token or to an allocated one.\<close>

fun tok_valid :: "lexer \<Rightarrow> tokptr \<Rightarrow> bool" where
  "tok_valid s (Malloc n) = (n < length (heap s))"
| "tok_valid s t = True"

lemma make_token_valid:
  "make_token tmpl s = Inr (t, s') \<Longrightarrow> tok_valid s' t"
  unfolding make_token_def current_file_def
  by (auto elim!: bindrE split: if_splits simp: Let_def)

lemma make_valid:
  "make_ident p s = Inr (t, s') \<Longrightarrow> tok_valid s' t"
  "make_keyword k s = Inr (t, s') \<Longrightarrow> tok_valid s' t"
  "make_number p s = Inr (t, s') \<Longrightarrow> tok_valid s' t"
  "make_invalid c s = Inr (t, s') \<Longrightarrow> tok_valid s' t"
  "make_char ci e s = Inr (t, s') \<Longrightarrow> tok_valid s' t"
  "make_strtok p n e s = Inr (t, s') \<Longrightarrow> tok_valid s' t"
  unfolding make_ident_def make_keyword_def make_number_def make_invalid_def make_char_def
    make_strtok_def
  by (erule make_token_valid)+

lemma read_number_loop_valid:
  "read_number_loop b lst s = Inr (t, s') \<Longrightarrow> tok_valid s' t"
proof (induction b lst s rule: read_number_loop.induct)
  case (1 b lst s)
  from "1.prems" obtain c s1 where r: "readc s = Inr (c, s1)"
    and rest: "(if \<not> number_char lst c
       then bindr (unreadc c s1) (\<lambda>s2. make_number (buf_body (buf_write b (CHR 0x00))) s2)
       else read_number_loop (buf_write b (int_char c)) (int_char c) s1) = Inr (t, s')"
    by (subst (asm) read_number_loop.simps) (auto elim!: bindrE)
  show ?case
  proof (cases "number_char lst c")
    case True
    with rest have "read_number_loop (buf_write b (int_char c)) (int_char c) s1 = Inr (t, s')" by simp
    from "1.IH"[OF r refl _ this] True show ?thesis by simp
  next
    case False
    with rest show ?thesis by (auto elim!: bindrE dest: make_valid)
  qed
qed

lemma read_ident_loop_valid:
  "read_ident_loop b s = Inr (t, s') \<Longrightarrow> tok_valid s' t"
proof (induction b s rule: read_ident_loop.induct)
  case (1 b s)
  from "1.prems" obtain ci s1 where rd: "readc s = Inr (ci, s1)"
    and rest: "(let c = int_char ci
       in if ident_char (schar_int c)
          then (if ci = EOF \<and> readc s1 = Inr (EOF, s1) then Inl Diverges
                else read_ident_loop (buf_write b c) s1)
          else bindr (if schar_int c = BACKSLASH then peek_ucn s1 else Inr (False, s1)) (\<lambda>(ucn, s2).
                 if ucn
                 then bindr (read_escaped_char s2) (\<lambda>(r, s3).
                        bindr (write_utf8 b (word_of_int r)) (\<lambda>b'. read_ident_loop b' s3))
                 else bindr (unreadc (schar_int c) s2) (\<lambda>s3.
                        make_ident (buf_body (buf_write b (CHR 0x00))) s3))) = Inr (t, s')"
    by (subst (asm) read_ident_loop.simps) (auto elim!: bindrE)
  let ?c = "int_char ci"
  show ?case
  proof (cases "ident_char (schar_int ?c)")
    case True
    with rest have stable: "\<not> (ci = EOF \<and> readc s1 = Inr (EOF, s1))"
      and l: "read_ident_loop (buf_write b ?c) s1 = Inr (t, s')"
      by (auto simp: Let_def split: if_splits)
    from "1.IH"(1)[OF rd refl refl True stable l] show ?thesis .
  next
    case False
    from False rest obtain ucn s2 where pk: "(if schar_int ?c = BACKSLASH then peek_ucn s1 else Inr (False, s1)) = Inr (ucn, s2)"
      and rest2: "(if ucn
                 then bindr (read_escaped_char s2) (\<lambda>(r, s3).
                        bindr (write_utf8 b (word_of_int r)) (\<lambda>b'. read_ident_loop b' s3))
                 else bindr (unreadc (schar_int ?c) s2) (\<lambda>s3.
                        make_ident (buf_body (buf_write b (CHR 0x00))) s3)) = Inr (t, s')"
      by (auto simp: Let_def elim!: bindrE)
    show ?thesis
    proof (cases ucn)
      case True
      with rest2 obtain r s3 b1 where re: "read_escaped_char s2 = Inr (r, s3)"
        and w: "write_utf8 b (word_of_int r) = Inr b1"
        and l: "read_ident_loop b1 s3 = Inr (t, s')"
        by (auto elim!: bindrE)
      from "1.IH"(2)[OF rd refl refl False pk refl True re refl w l] show ?thesis .
    next
      case False
      with rest2 show ?thesis by (auto elim!: bindrE dest: make_valid)
    qed
  qed
qed

lemma read_ident_valid:
  "read_ident c s = Inr (t, s') \<Longrightarrow> tok_valid s' t"
  unfolding read_ident_def by (rule read_ident_loop_valid)

lemma read_number_valid:
  "read_number c s = Inr (t, s') \<Longrightarrow> tok_valid s' t"
  unfolding read_number_def by (rule read_number_loop_valid)

lemma read_string_valid:
  "read_string e s = Inr (t, s') \<Longrightarrow> tok_valid s' t"
  unfolding read_string_def Let_def by (auto elim!: bindrE dest: make_valid)

lemma read_char_valid:
  "read_char e s = Inr (t, s') \<Longrightarrow> tok_valid s' t"
  unfolding read_char_def errorp_def
  by (auto elim!: bindrE split: if_splits dest: make_valid)

lemma read_rep_valid:
  "read_rep e t1 els s = Inr (t, s') \<Longrightarrow> tok_valid s' t"
  unfolding read_rep_def by (auto elim!: bindrE dest: make_valid)

lemma read_rep2_valid:
  "read_rep2 e1 t1 e2 t2 els s = Inr (t, s') \<Longrightarrow> tok_valid s' t"
  unfolding read_rep2_def by (auto elim!: bindrE if_nextE dest: make_valid)

lemma unreadc_heap: "unreadc c s = Inr s' \<Longrightarrow> heap s' = heap s"
  by (auto simp: unreadc_def Let_def split: if_splits)

lemma read_hash_digraph_valid:
  "read_hash_digraph s = Inr (Some t, s') \<Longrightarrow> tok_valid s' t"
  unfolding read_hash_digraph_def
  by (elim if_nextE bindrE)
     (auto split: option.splits prod.splits elim!: if_nextE bindrE dest: make_valid)

lemma read_token_switch_valid:
  "read_token_switch c s = Inr (t, s') \<Longrightarrow> tok_valid s' t"
  unfolding read_token_switch_def Let_def
  apply (simp only: split: if_splits)
  apply (auto elim!: bindrE if_nextE split: option.splits if_splits
              dest: make_valid read_rep_valid read_rep2_valid read_string_valid read_char_valid
                    read_ident_valid read_number_valid
                    read_hash_digraph_valid)
  done

lemma do_read_token_valid:
  "do_read_token s = Inr (t, s') \<Longrightarrow> tok_valid s' t"
  unfolding do_read_token_def
  by (auto elim!: bindrE split: if_splits dest: read_token_switch_valid)

lemma tok_valid_update [simp]: "tok_valid (tok_update t g s) t' = tok_valid s t'"
  by (cases t; cases t') simp_all

lemma lex_loop_valid:
  "lex_loop tok s = Inr (t, s') \<Longrightarrow> tok_valid s tok \<Longrightarrow> tok_valid s' t"
proof (induction tok s rule: lex_loop.induct)
  case (1 tok s)
  show ?case
  proof (cases "kind (tok_at s tok) = TSPACE")
    case False
    with "1.prems" show ?thesis by (subst (asm) lex_loop.simps) simp
  next
    case True
    with "1.prems" obtain tok' s1 where d: "do_read_token s = Inr (tok', s1)"
      and l: "lex_loop tok' (tok_update tok' (\<lambda>t. t\<lparr>space := True\<rparr>) s1) = Inr (t, s')"
      by (subst (asm) lex_loop.simps) (auto elim!: bindrE)
    from "1.IH"[OF True d refl l] do_read_token_valid[OF d] show ?thesis by simp
  qed
qed

lemma bol_tok_update:
  "tok_valid s t \<Longrightarrow> bol (tok_at (tok_update t (\<lambda>t. t\<lparr>bol := b\<rparr>) s) t) = b"
  by (cases t) simp_all

text \<open>
  How \<^verbatim>\<open>lex\<close> sets \<open>bol\<close>: a token that it reads from the character stream (the token
  buffer stack holds one list, which is empty) has \<open>bol\<close> set if and only if the column
  of the current file was 1 when \<^verbatim>\<open>lex\<close> was called. The flag follows the column counter
  of the file, not the tokens read on the line.
\<close>

lemma lex_bol_at_entry:
  assumes "lex s = Inr (t, s')" and "length (buffers s) = 1" and "last (buffers s) = []"
  shows "files s \<noteq> [] \<and> bol (tok_at s' t) = (column (last (files s)) = 1)"
proof -
  from assms(2) have ne: "buffers s \<noteq> []" by auto
  with assms obtain f tok0 s1 tok s2 where cf: "current_file s = Inr f"
    and d: "do_read_token s = Inr (tok0, s1)" and l: "lex_loop tok0 s1 = Inr (tok, s2)"
    and res: "t = tok" "s' = tok_update tok (\<lambda>t. t\<lparr>bol := (column f = 1)\<rparr>) s2"
    unfolding lex_def Let_def by (auto elim!: bindrE)
  from cf have f: "files s \<noteq> []" "f = last (files s)"
    by (auto simp: current_file_def split: if_splits)
  from lex_loop_valid[OF l do_read_token_valid[OF d]] have "tok_valid s2 tok" .
  from bol_tok_update[OF this] res f show ?thesis by simp
qed

lemma lex_bol_at_entry_example:
  "lex (lexer_on ''  x'') = Inr (projr (lex (lexer_on ''  x''))) \<and>
   length (buffers (lexer_on ''  x'')) = 1 \<and> last (buffers (lexer_on ''  x'')) = [] \<and>
   column (last (files (lexer_on ''  x''))) = 1 \<and>
   bol (tok_at (snd (projr (lex (lexer_on ''  x'')))) (fst (projr (lex (lexer_on ''  x'')))))"
proof -
  let ?s = "lexer_on ''  x''"
  have a: "lex ?s = Inr (fst (projr (lex ?s)), snd (projr (lex ?s)))" by code_simp
  have b: "length (buffers ?s) = 1" "last (buffers ?s) = []" "column (last (files ?s)) = 1"
    by (simp_all add: lexer_on_def make_file_def)
  from lex_bol_at_entry[OF a b(1,2)] a b show ?thesis by simp
qed

text \<open>
  C6: a token is to have \<open>bol\<close> set if only white space and comments precede it on its
  line, and unset if another token does. In the input \<^verbatim>\<open>a\<close>, backslash, newline, \<^verbatim>\<open>#x\<close>
  the tokens \<open>a\<close> and \<^verbatim>\<open>#\<close> are on one logical line, and \<^verbatim>\<open>#\<close> has \<open>bol\<close> set: \<^verbatim>\<open>get\<close> sets
  the column to 1 at the newline that \<^verbatim>\<open>readc\<close> removes. Without the backslash-newline
  the same line gives \<^verbatim>\<open>#\<close> with \<open>bol\<close> unset. And the newline token behind the
  identifier \<open>a\<close> has \<open>bol\<close> set: \<^verbatim>\<open>read_ident\<close> pushes the newline back, and \<^verbatim>\<open>unreadc\<close>
  sets the column to 1.
\<close>

theorem lex_bol_after_spliced_newline:
  "bindr (lex_n 2 (lexer_on [CHR ''a'', CHR 0x5C, CHR 0x0A, CHR ''#'', CHR ''x'', CHR 0x0A]))
     (\<lambda>(ts, s'). Inr (map kind ts, kid (ts ! 1), map bol ts)) =
     Inr ([TIDENT, TKEYWORD], Punct (ord CHR ''#''), [True, True]) \<and>
   bindr (lex_n 2 (lexer_on [CHR ''a'', CHR ''#'', CHR ''x'', CHR 0x0A]))
     (\<lambda>(ts, s'). Inr (map kind ts, kid (ts ! 1), map bol ts)) =
     Inr ([TIDENT, TKEYWORD], Punct (ord CHR ''#''), [True, False]) \<and>
   bindr (lex_n 2 (lexer_on [CHR ''a'', CHR 0x0A])) (\<lambda>(ts, s'). Inr (map kind ts, map bol ts)) =
     Inr ([TIDENT, TNEWLINE], [True, True])"
  by code_simp

text \<open>
  Where no newline is removed or pushed back in front of a token, the flag is as it is to
  be: of the tokens \<open>x\<close> and \<open>y\<close> of the line \<^verbatim>\<open> x y\<close>, the first has \<open>bol\<close> set and the
  second has not.
\<close>

lemma lex_bol_examples:
  "bindr (lex_n 2 (lexer_on [CHR '' '', CHR ''x'', CHR '' '', CHR ''y'', CHR 0x0A]))
     (\<lambda>(ts, s'). Inr (map kind ts, map bol ts)) = Inr ([TIDENT, TIDENT], [True, False])"
  by code_simp

subsection \<open>Skipping a conditional block\<close>

lemma skip_cond_incl_loop_directive:
  assumes "current_file s = Inr f" and "column f = 1"
    and "skip_space s = Inr (sp, s1)" and "readc s1 = Inr (ord CHR ''#'', s2)"
    and "current_file s2 = Inr f2"
    and "lex s2 = Inr (tok, s3)" and "kind (tok_at s3 tok) = TIDENT"
  shows "skip_cond_incl_loop nest s =
           (if nest = 0 \<and> (is_ident s3 tok ''else'' \<or> is_ident s3 tok ''elif'' \<or>
                            is_ident s3 tok ''endif'')
            then bindr (unget_token tok s3) (\<lambda>s4.
                   bindr (make_keyword (Punct (ord CHR ''#'')) s4) (\<lambda>(hash, s5).
                     let s6 = tok_update hash (\<lambda>t. t\<lparr>bol := True\<rparr>) s5;
                         s7 = tok_update hash (\<lambda>t. t\<lparr>tcolumn := column f2 - 1\<rparr>) s6
                     in unget_token hash s7))
            else bindr (skip_line s3)
                   (skip_cond_incl_loop
                      (if is_ident s3 tok ''if'' \<or> is_ident s3 tok ''ifdef'' \<or>
                          is_ident s3 tok ''ifndef'' then nest + 1
                       else if nest \<noteq> 0 \<and> is_ident s3 tok ''endif'' then nest - 1
                       else nest)))"
  using assms
  by (subst skip_cond_incl_loop.simps) (simp add: Let_def cong: if_cong)

lemma cond_incl_exit:
  assumes "kind (tok_at s3 tok) = TIDENT" and "files s3 \<noteq> []" and "buffers s3 \<noteq> []"
  shows "\<exists>s8 hash s9 s10.
           bindr (unget_token tok s3) (\<lambda>s4.
             bindr (make_keyword (Punct (ord CHR ''#'')) s4) (\<lambda>(hash, s5).
               let s6 = tok_update hash (\<lambda>t. t\<lparr>bol := True\<rparr>) s5;
                   s7 = tok_update hash (\<lambda>t. t\<lparr>tcolumn := col\<rparr>) s6
               in unget_token hash s7)) = Inr s8 \<and>
           lex s8 = Inr (hash, s9) \<and> is_keyword s9 hash (Punct (ord CHR ''#'')) \<and>
           bol (tok_at s9 hash) \<and> lex s9 = Inr (tok, s10) \<and> buffers s10 = buffers s3"
proof -
  let ?s4 = "s3\<lparr>buffers := butlast (buffers s3) @ [last (buffers s3) @ [tok]]\<rparr>"
  from assms have u1: "unget_token tok s3 = Inr ?s4"
    by (simp add: unget_token_def)
  let ?hash = "Malloc (length (heap s3))"
  let ?f = "last (files s3)"
  let ?r = "(Token0 TKEYWORD)\<lparr>kid := Punct (ord CHR ''#''), hideset := NULL, tfile := name ?f,
              tline := fst (pos s3), tcolumn := snd (pos s3), count := ntok ?f\<rparr>"
  let ?s5 = "?s4\<lparr>files := butlast (files s3) @ [?f\<lparr>ntok := ntok ?f + 1\<rparr>], heap := heap s3 @ [?r]\<rparr>"
  from assms(2) have mk: "make_keyword (Punct (ord CHR ''#'')) ?s4 = Inr (?hash, ?s5)"
    by (simp add: make_keyword_def make_token_def current_file_def Let_def)
  let ?s7 = "tok_update ?hash (\<lambda>t. t\<lparr>tcolumn := col\<rparr>) (tok_update ?hash (\<lambda>t. t\<lparr>bol := True\<rparr>) ?s5)"
  have h7: "heap ?s7 = heap s3 @ [?r\<lparr>bol := True, tcolumn := col\<rparr>]"
    by simp
  have k7: "kind (tok_at ?s7 ?hash) = TKEYWORD"
    by (simp add: Token0_def)
  let ?s8 = "?s7\<lparr>buffers := butlast (buffers ?s7) @ [last (buffers ?s7) @ [?hash]]\<rparr>"
  from k7 have u2: "unget_token ?hash ?s7 = Inr ?s8"
    by (simp add: unget_token_def)
  have b8: "buffers ?s8 = butlast (buffers s3) @ [last (buffers s3) @ [tok, ?hash]]"
    by simp
  let ?s9 = "?s8\<lparr>buffers := butlast (buffers s3) @ [last (buffers s3) @ [tok]]\<rparr>"
  have l1: "lex ?s8 = Inr (?hash, ?s9)"
    by (simp add: lex_def Let_def butlast_append)
  let ?s10 = "?s9\<lparr>buffers := butlast (buffers s3) @ [last (buffers s3)]\<rparr>"
  have l2: "lex ?s9 = Inr (tok, ?s10)"
    by (simp add: lex_def Let_def butlast_append)
  have kw: "is_keyword ?s9 ?hash (Punct (ord CHR ''#''))" "bol (tok_at ?s9 ?hash)"
    by (simp_all add: is_keyword_def Token0_def)
  have b10: "buffers ?s10 = buffers s3"
    using assms(3) by simp
  have "bindr (unget_token tok s3) (\<lambda>s4.
             bindr (make_keyword (Punct (ord CHR ''#'')) s4) (\<lambda>(hash, s5).
               let s6 = tok_update hash (\<lambda>t. t\<lparr>bol := True\<rparr>) s5;
                   s7 = tok_update hash (\<lambda>t. t\<lparr>tcolumn := col\<rparr>) s6
               in unget_token hash s7)) = Inr ?s8"
    by (simp only: u1 bindr.simps mk prod.case Let_def u2)
  with l1 l2 kw b10 show ?thesis by blast
qed

text \<open>
  The input of the scenario of C7:
  \<^verbatim>\<open>#if 0\<close>, \<^verbatim>\<open>foo\<close>, \<^verbatim>\<open>#if 1\<close>, \<^verbatim>\<open>bar\<close>, \<^verbatim>\<open>#endif\<close>, \<^verbatim>\<open>#endif\<close>, each followed by a newline.
\<close>

definition cond_incl_input :: string where
  "cond_incl_input =
     ''#if 0'' @ [CHR 0x0A] @ ''foo'' @ [CHR 0x0A] @ ''#if 1'' @ [CHR 0x0A] @ ''bar'' @ [CHR 0x0A] @
     ''#endif'' @ [CHR 0x0A] @ ''#endif'' @ [CHR 0x0A]"

text \<open>
  C7. In \<^verbatim>\<open>skip_cond_incl\<close>, when a \<^verbatim>\<open>#\<close> is read at the beginning of a line and \<^verbatim>\<open>lex\<close>
  returns an identifier after it: for \<^verbatim>\<open>if\<close>, \<^verbatim>\<open>ifdef\<close> and \<^verbatim>\<open>ifndef\<close> the loop goes on
  behind the end of the line with the nesting counter incremented; for \<^verbatim>\<open>endif\<close> at a
  nesting other than 0, with the counter decremented (the counter starts at 0); for \<^verbatim>\<open>else\<close>, \<^verbatim>\<open>elif\<close> and \<^verbatim>\<open>endif\<close>
  at nesting 0 the function returns, and the next two calls of \<^verbatim>\<open>lex\<close> return a keyword
  \<^verbatim>\<open>#\<close> with \<open>bol\<close> set and then the identifier. In the scenario, entered after the
  tokens \<^verbatim>\<open>#\<close>, \<^verbatim>\<open>if\<close> and \<^verbatim>\<open>0\<close> have been read, the tokens that follow the call are \<^verbatim>\<open>#\<close>,
  \<^verbatim>\<open>endif\<close>, the newline and EOF, the \<^verbatim>\<open>#\<close> has \<open>bol\<close> set, and the identifiers that were
  ever allocated are \<^verbatim>\<open>if\<close>, \<^verbatim>\<open>if\<close>, \<^verbatim>\<open>endif\<close> and \<^verbatim>\<open>endif\<close>: neither \<^verbatim>\<open>foo\<close> nor \<^verbatim>\<open>bar\<close>.
\<close>

theorem skip_cond_incl_directives:
  "skip_cond_incl = skip_cond_incl_loop 0 \<and>
   (\<forall>s f sp s1 s2 f2 tok s3 nest.
      current_file s = Inr f \<and> column f = 1 \<and> skip_space s = Inr (sp, s1) \<and>
      readc s1 = Inr (ord CHR ''#'', s2) \<and> current_file s2 = Inr f2 \<and>
      lex s2 = Inr (tok, s3) \<and> kind (tok_at s3 tok) = TIDENT \<longrightarrow>
        (is_ident s3 tok ''if'' \<or> is_ident s3 tok ''ifdef'' \<or> is_ident s3 tok ''ifndef'' \<longrightarrow>
           skip_cond_incl_loop nest s =
             bindr (skip_line s3) (skip_cond_incl_loop (nest + 1))) \<and>
        (nest \<noteq> 0 \<and> is_ident s3 tok ''endif'' \<longrightarrow>
           skip_cond_incl_loop nest s =
             bindr (skip_line s3) (skip_cond_incl_loop (nest - 1))) \<and>
        (nest = 0 \<and> files s3 \<noteq> [] \<and> buffers s3 \<noteq> [] \<and>
         (is_ident s3 tok ''else'' \<or> is_ident s3 tok ''elif'' \<or> is_ident s3 tok ''endif'') \<longrightarrow>
           (\<exists>s8 hash s9 s10.
              skip_cond_incl_loop nest s = Inr s8 \<and> lex s8 = Inr (hash, s9) \<and>
              is_keyword s9 hash (Punct (ord CHR ''#'')) \<and> bol (tok_at s9 hash) \<and>
              lex s9 = Inr (tok, s10)))) \<and>
   bindr (lex_n 3 (lexer_on cond_incl_input)) (\<lambda>(ts, s1).
     bindr (skip_cond_incl s1) (\<lambda>s2.
       bindr (lex_n 4 s2) (\<lambda>(ts', s3).
         Inr (map kind ts, map kind ts', kid (ts' ! 0), bol (ts' ! 0), sval (ts' ! 1),
              map sval (filter (\<lambda>t. kind t = TIDENT) (heap s3))))))
   = Inr ([TKEYWORD, TIDENT, TNUMBER], [TKEYWORD, TIDENT, TNEWLINE, TEOF],
          Punct (ord CHR ''#''), True, Some (''endif'' @ [CHR 0x00]),
          [Some (''if'' @ [CHR 0x00]), Some (''if'' @ [CHR 0x00]),
           Some (''endif'' @ [CHR 0x00]), Some (''endif'' @ [CHR 0x00])])"
proof (intro conjI allI impI)
  show "skip_cond_incl = skip_cond_incl_loop 0"
    by (rule ext) (simp add: skip_cond_incl_def)
next
  fix s f sp s1 s2 f2 tok s3 and nest :: int
  assume a: "current_file s = Inr f \<and> column f = 1 \<and> skip_space s = Inr (sp, s1) \<and>
      readc s1 = Inr (ord CHR ''#'', s2) \<and> current_file s2 = Inr f2 \<and>
      lex s2 = Inr (tok, s3) \<and> kind (tok_at s3 tok) = TIDENT"
  then have step: "skip_cond_incl_loop nest s =
           (if nest = 0 \<and> (is_ident s3 tok ''else'' \<or> is_ident s3 tok ''elif'' \<or>
                            is_ident s3 tok ''endif'')
            then bindr (unget_token tok s3) (\<lambda>s4.
                   bindr (make_keyword (Punct (ord CHR ''#'')) s4) (\<lambda>(hash, s5).
                     let s6 = tok_update hash (\<lambda>t. t\<lparr>bol := True\<rparr>) s5;
                         s7 = tok_update hash (\<lambda>t. t\<lparr>tcolumn := column f2 - 1\<rparr>) s6
                     in unget_token hash s7))
            else bindr (skip_line s3)
                   (skip_cond_incl_loop
                      (if is_ident s3 tok ''if'' \<or> is_ident s3 tok ''ifdef'' \<or>
                          is_ident s3 tok ''ifndef'' then nest + 1
                       else if nest \<noteq> 0 \<and> is_ident s3 tok ''endif'' then nest - 1
                       else nest)))" for nest
    using skip_cond_incl_loop_directive[of s f sp s1 s2 f2 tok s3 nest] by blast
  {
    assume "is_ident s3 tok ''if'' \<or> is_ident s3 tok ''ifdef'' \<or> is_ident s3 tok ''ifndef''"
    then show "skip_cond_incl_loop nest s = bindr (skip_line s3) (skip_cond_incl_loop (nest + 1))"
      by (subst step) (auto simp: is_ident_def split: option.splits)
  }
  {
    assume "nest \<noteq> 0 \<and> is_ident s3 tok ''endif''"
    then show "skip_cond_incl_loop nest s = bindr (skip_line s3) (skip_cond_incl_loop (nest - 1))"
      by (subst step) (auto simp: is_ident_def split: option.splits)
  }
  {
    assume b: "nest = 0 \<and> files s3 \<noteq> [] \<and> buffers s3 \<noteq> [] \<and>
         (is_ident s3 tok ''else'' \<or> is_ident s3 tok ''elif'' \<or> is_ident s3 tok ''endif'')"
    from a b cond_incl_exit[of s3 tok "column f2 - 1"]
    show "\<exists>s8 hash s9 s10.
              skip_cond_incl_loop nest s = Inr s8 \<and> lex s8 = Inr (hash, s9) \<and>
              is_keyword s9 hash (Punct (ord CHR ''#'')) \<and> bol (tok_at s9 hash) \<and>
              lex s9 = Inr (tok, s10)"
      by (subst step) auto
  }
next
  show "bindr (lex_n 3 (lexer_on cond_incl_input)) (\<lambda>(ts, s1).
     bindr (skip_cond_incl s1) (\<lambda>s2.
       bindr (lex_n 4 s2) (\<lambda>(ts', s3).
         Inr (map kind ts, map kind ts', kid (ts' ! 0), bol (ts' ! 0), sval (ts' ! 1),
              map sval (filter (\<lambda>t. kind t = TIDENT) (heap s3))))))
   = Inr ([TKEYWORD, TIDENT, TNUMBER], [TKEYWORD, TIDENT, TNEWLINE, TEOF],
          Punct (ord CHR ''#''), True, Some (''endif'' @ [CHR 0x00]),
          [Some (''if'' @ [CHR 0x00]), Some (''if'' @ [CHR 0x00]),
           Some (''endif'' @ [CHR 0x00]), Some (''endif'' @ [CHR 0x00])])"
    by code_simp
qed

text \<open>
  The state at an \<^verbatim>\<open>#endif\<close> line meets the hypotheses, and \<^verbatim>\<open>skip_cond_incl\<close> returns there
  with \<^verbatim>\<open>#\<close> and \<^verbatim>\<open>endif\<close> pushed back.
\<close>

theorem skip_cond_incl_directives_witness:
  "current_file (lexer_on ''#endif'') = Inr (last (files (lexer_on ''#endif''))) \<and>
   column (last (files (lexer_on ''#endif''))) = 1 \<and>
   skip_space (lexer_on ''#endif'') = Inr (False, snd (projr (skip_space (lexer_on ''#endif'')))) \<and>
   readc (snd (projr (skip_space (lexer_on ''#endif'')))) =
     Inr (ord CHR ''#'', snd (projr (readc (snd (projr (skip_space (lexer_on ''#endif''))))))) \<and>
   lex (snd (projr (readc (snd (projr (skip_space (lexer_on ''#endif''))))))) =
     Inr (Malloc 0,
          snd (projr (lex (snd (projr (readc (snd (projr (skip_space (lexer_on ''#endif''))))))))))
   \<and>
   is_ident (snd (projr (lex (snd (projr (readc (snd (projr (skip_space (lexer_on ''#endif''))))))))))
     (Malloc 0) ''endif'' \<and>
   (\<exists>s8 hash s9 s10.
      skip_cond_incl_loop 0 (lexer_on ''#endif'') = Inr s8 \<and> lex s8 = Inr (hash, s9) \<and>
      is_keyword s9 hash (Punct (ord CHR ''#'')) \<and> bol (tok_at s9 hash) \<and>
      lex s9 = Inr (Malloc 0, s10))"
proof -
  let ?s = "lexer_on ''#endif''"
  let ?s1 = "snd (projr (skip_space ?s))"
  let ?s2 = "snd (projr (readc ?s1))"
  let ?s3 = "snd (projr (lex ?s2))"
  have h1: "current_file ?s = Inr (last (files ?s))" by code_simp
  have h2: "column (last (files ?s)) = 1" by code_simp
  have h3: "skip_space ?s = Inr (False, ?s1)" by code_simp
  have h4: "readc ?s1 = Inr (ord CHR ''#'', ?s2)" by code_simp
  have h5: "current_file ?s2 = Inr (last (files ?s2))" by code_simp
  have h6: "lex ?s2 = Inr (Malloc 0, ?s3)" by code_simp
  have h7: "kind (tok_at ?s3 (Malloc 0)) = TIDENT" by code_simp
  have h8: "is_ident ?s3 (Malloc 0) ''endif''" by code_simp
  have h9: "files ?s3 \<noteq> []" "buffers ?s3 \<noteq> []" by code_simp+
  from skip_cond_incl_directives[THEN conjunct2, THEN conjunct1, rule_format,
      of ?s "last (files ?s)" False ?s1 ?s2 "last (files ?s2)" "Malloc 0" ?s3 0,
      THEN conjunct2, THEN conjunct2, rule_format]
    h1 h2 h3 h4 h5 h6 h7 h8 h9
  show ?thesis by simp
qed

subsection \<open>Numbers\<close>

text \<open>
  The characters of a number as the specification has them: a digit, a letter, a period,
  or a sign directly behind one of the letters \<^verbatim>\<open>e\<close>, \<^verbatim>\<open>E\<close>, \<^verbatim>\<open>p\<close>, \<^verbatim>\<open>P\<close>. \<open>lst\<close> is the
  character before.
\<close>

definition pp_number_char :: "char \<Rightarrow> int \<Rightarrow> bool" where
  "pp_number_char lst c \<longleftrightarrow>
     isdigit c \<or> isalpha c \<or> c = ord CHR ''.'' \<or>
     (lst \<in> {CHR ''e'', CHR ''E'', CHR ''p'', CHR ''P''} \<and> (c = ord CHR ''+'' \<or> c = ord CHR ''-''))"

fun pp_number_chars :: "char \<Rightarrow> int list \<Rightarrow> bool" where
  "pp_number_chars lst [] = True"
| "pp_number_chars lst (x # xs) = (pp_number_char lst x \<and> pp_number_chars (int_char x) xs)"

text \<open>The characters that the next \<open>n\<close> calls of \<^verbatim>\<open>readc\<close> return.\<close>

fun readc_n :: "nat \<Rightarrow> 'a stream_scheme \<Rightarrow> (int list \<times> 'a stream_scheme) res" where
  "readc_n 0 s = Inr ([], s)"
| "readc_n (Suc n) s =
     (case readc s of
        Inl e \<Rightarrow> Inl e
      | Inr (c, s1) \<Rightarrow> (case readc_n n s1 of Inl e \<Rightarrow> Inl e | Inr (cs, s2) \<Rightarrow> Inr (c # cs, s2)))"

lemma int_char_eq_iff:
  assumes "- 128 \<le> c" and "c < 256" and "of_char k < (128 :: int)"
  shows "int_char c = k \<longleftrightarrow> c = of_char k"
proof -
  have "int_char c = k \<longleftrightarrow> (of_char (int_char c) :: int) = of_char k" by (simp only: of_char_eq_iff)
  also have "\<dots> \<longleftrightarrow> c mod 256 = of_char k" by (simp add: int_char_def)
  also have "\<dots> \<longleftrightarrow> c = of_char k"
  proof (cases "0 \<le> c")
    case True
    with assms(2) show ?thesis by simp
  next
    case False
    with assms(1) have "c mod 256 = c + 256"
      by (intro mod_pos_pos_trivial[of "c + 256" 256, simplified]) auto
    with False assms(1,3) uchar_int_range[of k] show ?thesis by (auto simp: uchar_int_def)
  qed
  finally show ?thesis .
qed

lemma number_char_pp:
  assumes "lst \<noteq> CHR 0x00" and "c \<noteq> 0" and "- 128 \<le> c" and "c < 256"
  shows "number_char lst c = pp_number_char lst c"
  using assms
  by (auto simp: number_char_def pp_number_char_def strchr_def Let_def int_char_schar_int
                 int_char_eq_iff[OF assms(3,4)])

lemma number_char_NUL: "number_char (CHR ''e'') 0 \<and> number_char (CHR 0x00) (ord CHR ''+'')"
  by code_simp

lemma pp_number_char_range:
  "pp_number_char lst c \<Longrightarrow> 0 < c \<and> c < 128"
  by (auto simp: pp_number_char_def isdigit_def isalpha_def)

lemma int_char_not_NUL: "0 < c \<Longrightarrow> c < 256 \<Longrightarrow> int_char c \<noteq> CHR 0x00"
  using int_char_eq_iff[of c "CHR 0x00"] by simp

lemma body_buf_write:
  "len b = int (length (body b)) \<Longrightarrow>
   body (buf_write b c) = body b @ [c] \<and> len (buf_write b c) = int (length (body (buf_write b c)))"
  by (simp add: buf_write_def realloc_body_def Let_def)

lemma read_number_loop_pp:
  assumes "readc_n (Suc (length xs)) s = Inr (xs @ [y], s')"
    and "pp_number_chars lst xs" and "\<not> pp_number_char (last (lst # map int_char xs)) y"
    and "lst \<noteq> CHR 0x00" and "y \<noteq> 0" and "- 128 \<le> y" and "y < 256"
    and "len b = int (length (body b))"
  shows "read_number_loop b lst s =
           bindr (unreadc y s') (make_number (body b @ map int_char xs @ [CHR 0x00]))"
  using assms
proof (induction xs arbitrary: b lst s)
  case Nil
  then have r: "readc s = Inr (y, s')" by (auto split: sum.splits)
  from Nil have "\<not> number_char lst y" by (simp add: number_char_pp)
  with r body_buf_write[OF Nil.prems(8)] show ?case
    by (subst read_number_loop.simps) (simp add: buf_body_def)
next
  case (Cons x xs)
  from Cons.prems(1) obtain s1 where r: "readc s = Inr (x, s1)"
    and n: "readc_n (Suc (length xs)) s1 = Inr (xs @ [y], s')"
    by (auto split: sum.splits)
  from Cons.prems(2) have px: "pp_number_char lst x" and pxs: "pp_number_chars (int_char x) xs"
    by simp_all
  note rg = pp_number_char_range[OF px]
  from px rg Cons.prems(4) have nc: "number_char lst x" by (simp add: number_char_pp)
  from rg have nz: "int_char x \<noteq> CHR 0x00" by (simp add: int_char_not_NUL)
  note bw = body_buf_write[OF Cons.prems(8), of "int_char x"]
  from Cons.prems(3) have l: "\<not> pp_number_char (last (int_char x # map int_char xs)) y" by simp
  from Cons.IH[OF n pxs l nz Cons.prems(5,6,7) bw[THEN conjunct2]] bw r nc
  show ?case
    by (subst read_number_loop.simps) simp
qed

text \<open>
  \<^verbatim>\<open>read_number\<close> itself: behind the first character \<open>c\<close> it takes the longest run \<open>xs\<close> of
  such characters that \<^verbatim>\<open>readc\<close> delivers, pushes back the character \<open>y\<close> that ends the
  run, and makes a number of \<open>c\<close> and the run, byte for byte, where neither \<open>c\<close> nor \<open>y\<close>
  is the NUL byte.
\<close>

lemma read_number_pp:
  assumes "readc_n (Suc (length xs)) s = Inr (xs @ [y], s')"
    and "pp_number_chars c xs" and "\<not> pp_number_char (last (c # map int_char xs)) y"
    and "c \<noteq> CHR 0x00" and "y \<noteq> 0" and "- 128 \<le> y" and "y < 256"
  shows "read_number c s =
           bindr (unreadc y s') (make_number (c # map int_char xs @ [CHR 0x00]))"
proof -
  have b: "len (buf_write make_buffer c) = int (length (body (buf_write make_buffer c)))"
    "body (buf_write make_buffer c) = [c]"
    using body_buf_write[of make_buffer c] by (simp_all add: make_buffer_def)
  from read_number_loop_pp[OF assms b(1)] b(2) show ?thesis
    by (simp add: read_number_def)
qed

text \<open>The two examples of a preprocessing number: each is one token and holds all bytes.\<close>

lemma pp_number_examples:
  "bindr (lex_n 3 (lexer_on ''1.5e+10f'')) (\<lambda>(ts, s'). Inr (map kind ts, sval (ts ! 0))) =
     Inr ([TNUMBER, TNEWLINE, TEOF], Some (''1.5e+10f'' @ [CHR 0x00])) \<and>
   bindr (lex_n 3 (lexer_on ''.32e.'')) (\<lambda>(ts, s'). Inr (map kind ts, sval (ts ! 0))) =
     Inr ([TNUMBER, TNEWLINE, TEOF], Some (''.32e.'' @ [CHR 0x00]))"
  by code_simp

text \<open>
  C8, at a file that holds a NUL byte after the letter \<^verbatim>\<open>e\<close>: \<^verbatim>\<open>strchr\<close> finds the NUL that
  ends the string \<^verbatim>\<open>+-\<close>, so \<^verbatim>\<open>read_number\<close> takes the NUL byte for a sign; it then finds
  the NUL that ends \<^verbatim>\<open>eEpP\<close>, and takes the \<^verbatim>\<open>+\<close> behind it as well. The bytes \<^verbatim>\<open>1\<close>, \<^verbatim>\<open>e\<close>,
  NUL, \<^verbatim>\<open>+\<close>, \<^verbatim>\<open>5\<close>, \<^verbatim>\<open>;\<close> are read as one number of five bytes and the keyword \<^verbatim>\<open>;\<close>.
\<close>

theorem read_number_takes_NUL:
  "bindr (lex_n 2 (lexer_on [CHR ''1'', CHR ''e'', CHR 0x00, CHR ''+'', CHR ''5'', CHR '';'']))
     (\<lambda>(ts, s'). Inr (map kind ts, sval (ts ! 0), kid (ts ! 1))) =
   Inr ([TNUMBER, TKEYWORD],
        Some [CHR ''1'', CHR ''e'', CHR 0x00, CHR ''+'', CHR ''5'', CHR 0x00],
        Punct (ord CHR '';''))"
  by code_simp

section \<open>What the character stream delivers\<close>

text \<open>
  The characters of an input as the specification describes them. \<open>canon\<close> replaces a
  carriage return, together with a line feed that follows it, by a newline (\<open>cr\<close> tells
  that the byte before was a carriage return); \<open>terminate\<close> appends a newline unless the
  character before the end is a newline (or nothing has been read since an EOF);
  \<open>splice\<close> removes every backslash that is followed by a newline, and that newline.
\<close>

fun canon :: "(char \<Rightarrow> int) \<Rightarrow> bool \<Rightarrow> string \<Rightarrow> int list" where
  "canon conv cr [] = []"
| "canon conv cr (c # cs) =
     (if cr \<and> c = CHR 0x0A then canon conv False cs
      else if c = CHR 0x0D then NL # canon conv True cs
      else conv c # canon conv False cs)"

definition terminate :: "int \<Rightarrow> int list \<Rightarrow> int list" where
  "terminate l xs = (if last (l # xs) = NL \<or> last (l # xs) = EOF then xs else xs @ [NL])"

fun splice :: "int list \<Rightarrow> int list" where
  "splice (a # b # xs) = (if a = BACKSLASH \<and> b = NL then splice xs else a # splice (b # xs))"
| "splice xs = xs"

text \<open>The characters that \<^verbatim>\<open>readc\<close> returns up to the first \<^verbatim>\<open>EOF\<close>.\<close>

function readc_until_eof :: "'a stream_scheme \<Rightarrow> int list res" where
  "readc_until_eof s =
     (case readc s of
        Inl e \<Rightarrow> Inl e
      | Inr (c, s') \<Rightarrow>
          if c = EOF then Inr []
          else (case readc_until_eof s' of Inl e \<Rightarrow> Inl e | Inr cs \<Rightarrow> Inr (c # cs)))"
  by pat_completeness auto
termination
  by (relation "measure stream_left") (auto dest: readc_left)

declare readc_until_eof.simps [simp del]

text \<open>
  What a file has still to deliver to \<^verbatim>\<open>get\<close>: its pushed-back characters, the last one
  first, and then what its reader makes of the bytes not yet read.
\<close>

definition reader_chars :: "File \<Rightarrow> int list" where
  "reader_chars f =
     (if filep f = None
      then terminate (lastc f) (canon schar_int False (takeWhile (\<lambda>c. c \<noteq> CHR 0x00) (pstr f)))
      else terminate (lastc f) (canon uchar_int False (the (filep f))))"

definition pending :: "File \<Rightarrow> int list" where
  "pending f = rev (buf f) @ reader_chars f"

lemma terminate_Cons: "terminate l (x # xs) = x # terminate x xs"
  by (simp add: terminate_def)

lemma terminate_Nil: "terminate l [] = (if l = NL \<or> l = EOF then [] else [NL])"
  by (simp add: terminate_def)

lemma canon_after_cr:
  "canon conv True cs = canon conv False (case cs of [] \<Rightarrow> [] | c # r \<Rightarrow> if c = CHR 0x0A then r else cs)"
  by (cases cs) simp_all

lemma uchar_int_CR: "uchar_int c = 13 \<longleftrightarrow> c = CHR 0x0D"
proof
  assume "uchar_int c = 13"
  then have "(of_char c :: int) = of_char (CHR 0x0D)" by (simp add: uchar_int_def)
  then show "c = CHR 0x0D" by (simp only: of_char_eq_iff)
qed (simp add: uchar_int_def)

lemma uchar_int_NL: "uchar_int (CHR 0x0A) = NL"
  by (simp add: uchar_int_def)

lemma reader_step_file:
  assumes "filep f = Some fp" and "buf f = []"
  shows "(reader_chars f = [] \<longrightarrow> fst (get_char f) = EOF \<and> reader_chars (snd (get_char f)) = []) \<and>
         (\<forall>x xs. reader_chars f = x # xs \<longrightarrow>
            fst (get_char f) = x \<and> reader_chars (snd (get_char f)) = xs) \<and>
         buf (snd (get_char f)) = [] \<and> filep (snd (get_char f)) \<noteq> None"
proof (cases fp)
  case Nil
  with assms show ?thesis
    by (auto simp: reader_chars_def get_char_def readc_file_def Let_def terminate_Nil)
next
  case (Cons c0 rest)
  from uchar_int_nonneg[of c0] have ne: "uchar_int c0 \<noteq> EOF" by simp
  show ?thesis
  proof (cases "c0 = CHR 0x0D")
    case False
    then have "uchar_int c0 \<noteq> 13" by (simp add: uchar_int_CR)
    with False ne assms Cons show ?thesis
      by (simp add: reader_chars_def get_char_def readc_file_def Let_def terminate_Cons)
  next
    case True
    show ?thesis
    proof (cases rest)
      case Nil
      with True assms Cons show ?thesis
        by (simp add: reader_chars_def get_char_def readc_file_def Let_def terminate_Cons
            ungetc_def uchar_int_def)
    next
      case (Cons c1 rest')
      from uchar_int_nonneg[of c1] have ne1: "uchar_int c1 \<noteq> EOF" by simp
      have nl: "uchar_int c1 = NL \<longleftrightarrow> c1 = CHR 0x0A"
      proof
        assume "uchar_int c1 = NL"
        then have "(of_char c1 :: int) = of_char (CHR 0x0A)" by (simp add: uchar_int_def)
        then show "c1 = CHR 0x0A" by (simp only: of_char_eq_iff)
      qed (simp add: uchar_int_def)
      have rt: "int_char (uchar_int c1) = c1" by (simp add: int_char_def uchar_int_def)
      from True assms \<open>fp = c0 # rest\<close> Cons ne1 nl rt show ?thesis
        by (simp add: reader_chars_def get_char_def readc_file_def Let_def terminate_Cons
            ungetc_def) (simp add: uchar_int_def)
    qed
  qed
qed


lemma terminate_no_EOF_hd:
  "EOF \<notin> set (terminate l (x # xs)) \<Longrightarrow> x \<noteq> EOF"
  by (auto simp: terminate_def split: if_splits)

lemma reader_step_string:
  assumes "filep f = None" and "buf f = []" and "EOF \<notin> set (reader_chars f)"
  shows "(reader_chars f = [] \<longrightarrow> fst (get_char f) = EOF \<and> reader_chars (snd (get_char f)) = []) \<and>
         (\<forall>x xs. reader_chars f = x # xs \<longrightarrow>
            fst (get_char f) = x \<and> reader_chars (snd (get_char f)) = xs) \<and>
         buf (snd (get_char f)) = [] \<and> filep (snd (get_char f)) = None"
proof (cases "deref (pstr f) = CHR 0x00")
  case True
  then have "takeWhile (\<lambda>c. c \<noteq> CHR 0x00) (pstr f) = []"
    by (cases "pstr f") auto
  with True assms show ?thesis
    by (auto simp: reader_chars_def get_char_def readc_string_def Let_def terminate_Nil)
next
  case False
  then obtain c0 rest where p: "pstr f = c0 # rest" and c0: "c0 \<noteq> CHR 0x00"
    by (cases "pstr f") auto
  show ?thesis
  proof (cases "c0 = CHR 0x0D")
    case True
    have "canon schar_int True (takeWhile (\<lambda>c. c \<noteq> CHR 0x00) rest) =
          canon schar_int False
            (takeWhile (\<lambda>c. c \<noteq> CHR 0x00) (if deref rest = CHR 0x0A then tl rest else rest))"
      by (cases rest) auto
    with True p assms(1,2) show ?thesis
      by (simp add: reader_chars_def get_char_def readc_string_def Let_def terminate_Cons)
  next
    case nr: False
    with p c0 assms(1,3) have "schar_int c0 \<noteq> EOF"
      by (auto simp: reader_chars_def dest: terminate_no_EOF_hd)
    with nr p c0 assms(1,2) show ?thesis
      by (simp add: reader_chars_def get_char_def readc_string_def Let_def terminate_Cons)
  qed
qed

lemma reader_step:
  assumes "buf f = []" and "EOF \<notin> set (reader_chars f)"
  shows "(reader_chars f = [] \<longrightarrow> fst (get_char f) = EOF \<and> reader_chars (snd (get_char f)) = []) \<and>
         (\<forall>x xs. reader_chars f = x # xs \<longrightarrow>
            fst (get_char f) = x \<and> reader_chars (snd (get_char f)) = xs) \<and>
         buf (snd (get_char f)) = []"
proof (cases "filep f")
  case None
  from reader_step_string[OF None assms] show ?thesis by simp
next
  case (Some fp)
  from reader_step_file[OF Some assms(1)] show ?thesis by simp
qed

lemma get_char_pending:
  assumes "EOF \<notin> set (pending f)"
  shows "(pending f = [] \<longrightarrow> fst (get_char f) = EOF \<and> pending (snd (get_char f)) = []) \<and>
         (\<forall>x xs. pending f = x # xs \<longrightarrow>
            fst (get_char f) = x \<and> pending (snd (get_char f)) = xs) \<and>
         length (buf (snd (get_char f))) = length (buf f) - 1"
proof (cases "buf f = []")
  case True
  with assms have "EOF \<notin> set (reader_chars f)" by (simp add: pending_def)
  from reader_step[OF True this] True show ?thesis by (simp add: pending_def)
next
  case False
  then obtain b x where b: "buf f = b @ [x]" by (metis rev_exhaust)
  then have "get_char f = (x, f\<lparr>buf := b\<rparr>)" by (simp add: get_char_def)
  moreover have "reader_chars (f\<lparr>buf := b\<rparr>) = reader_chars f" by (simp add: reader_chars_def)
  ultimately show ?thesis using b by (simp add: pending_def)
qed

lemma reader_chars_updates [simp]:
  "reader_chars (buf_update gb f) = reader_chars f"
  "reader_chars (column_update gc f) = reader_chars f"
  "reader_chars (line_update gl f) = reader_chars f"
  by (simp_all add: reader_chars_def)

lemma pending_advance [simp]: "pending (advance c f) = pending f"
  by (simp add: advance_def pending_def)

lemma buf_advance [simp]: "buf (advance c f) = buf f"
  by (simp add: advance_def)

lemma get_single:
  assumes "files s = [f]"
  shows "get s = Inr (fst (get_char f), s\<lparr>files := [advance (fst (get_char f)) (snd (get_char f))]\<rparr>)"
  using assms by (simp add: get_eq)

lemma unreadc_single:
  assumes "files s = [f]" and "c \<noteq> EOF" and "length (buf f) < BUF_CELLS"
  shows "\<exists>f'. unreadc c s = Inr (s\<lparr>files := [f']\<rparr>) \<and> pending f' = c # pending f \<and>
              buf f' = buf f @ [c]"
proof (cases "c = NL")
  case True
  with assms show ?thesis
    by (intro exI[of _ "f\<lparr>buf := buf f @ [c], column := 1, line := line f - 1\<rparr>"])
       (simp add: unreadc_def Let_def pending_def)
next
  case False
  with assms show ?thesis
    by (intro exI[of _ "f\<lparr>buf := buf f @ [c], column := column f - 1\<rparr>"])
       (simp add: unreadc_def Let_def pending_def)
qed

lemma splice_Cons_other: "a \<noteq> BACKSLASH \<Longrightarrow> splice (a # xs) = a # splice xs"
  by (cases xs) simp_all

lemma splice_subset: "set (splice xs) \<subseteq> set xs"
  by (induction xs rule: splice.induct) auto

text \<open>
  One call of \<^verbatim>\<open>readc\<close> on a stack of a single file: it returns the first character of
  the spliced sequence, or \<^verbatim>\<open>EOF\<close> when there is none, and leaves the rest.
\<close>

lemma readc_single:
  assumes "files s = [f]" and "EOF \<notin> set (pending f)" and "length (buf f) \<le> 1"
  shows "\<exists>s' f'. readc s = Inr (case splice (pending f) of [] \<Rightarrow> EOF | x # xs \<Rightarrow> x, s') \<and>
           files s' = [f'] \<and> splice (pending f') = tl (splice (pending f)) \<and>
           EOF \<notin> set (pending f') \<and> length (buf f') \<le> 1"
  using assms
proof (induction "length (pending f)" arbitrary: s f rule: less_induct)
  case less
  note gp = get_char_pending[OF less.prems(2)]
  let ?c = "fst (get_char f)"
  let ?f1 = "advance ?c (snd (get_char f))"
  let ?s1 = "s\<lparr>files := [?f1]\<rparr>"
  have g: "get s = Inr (?c, ?s1)" by (rule get_single[OF less.prems(1)])
  have b1: "length (buf ?f1) = length (buf f) - 1" using gp by simp
  show ?case
  proof (cases "pending f")
    case Nil
    with gp have "?c = EOF" "pending ?f1 = []" by simp_all
    with g Nil b1 less.prems(3) show ?thesis
      by (subst readc.simps) auto
  next
    case (Cons x xs)
    with gp have c: "?c = x" and p1: "pending ?f1 = xs" by simp_all
    from Cons less.prems(2) have xne: "x \<noteq> EOF" and xs_ne: "EOF \<notin> set xs" by auto
    show ?thesis
    proof (cases "x = BACKSLASH")
      case False
      with g c xne have "readc s = Inr (x, ?s1)" by (subst readc.simps) simp
      with False Cons p1 xs_ne b1 less.prems(3) show ?thesis
        by (auto simp: splice_Cons_other)
    next
      case True
      have f1: "files ?s1 = [?f1]" by simp
      from p1 xs_ne have e1: "EOF \<notin> set (pending ?f1)" by simp
      note gp2 = get_char_pending[OF e1]
      let ?c2 = "fst (get_char ?f1)"
      let ?f2 = "advance ?c2 (snd (get_char ?f1))"
      let ?s2 = "?s1\<lparr>files := [?f2]\<rparr>"
      have g2: "get ?s1 = Inr (?c2, ?s2)" by (rule get_single[OF f1])
      have b2: "buf ?f2 = []" using gp2 b1 less.prems(3) by simp
      show ?thesis
      proof (cases xs)
        case Nil
        with gp2 p1 have "?c2 = EOF" "pending ?f2 = []" by simp_all
        with g g2 c True Nil Cons b2 show ?thesis
          by (subst readc.simps) (auto simp: unreadc_def)
      next
        case (Cons y ys)
        with gp2 p1 have c2: "?c2 = y" and p2: "pending ?f2 = ys" by simp_all
        from Cons xs_ne have yne: "y \<noteq> EOF" and ys_ne: "EOF \<notin> set ys" by auto
        show ?thesis
        proof (cases "y = NL")
          case nl: True
          have f2: "files ?s2 = [?f2]" by simp
          have "length (pending ?f2) < length (pending f)"
            using p2 Cons \<open>pending f = x # xs\<close> by simp
          from less.hyps[OF this f2] p2 ys_ne b2
          obtain s' f' where r: "readc ?s2 = Inr (case splice (pending ?f2) of [] \<Rightarrow> EOF | x # xs \<Rightarrow> x, s')"
            and rest: "files s' = [f']" "splice (pending f') = tl (splice (pending ?f2))"
              "EOF \<notin> set (pending f')" "length (buf f') \<le> 1"
            by auto
          from g g2 c c2 True nl xne have "readc s = readc ?s2"
            by (subst readc.simps) simp
          moreover have "splice (pending f) = splice (pending ?f2)"
            using \<open>pending f = x # xs\<close> Cons True nl p2 by simp
          ultimately show ?thesis using r rest by auto
        next
          case False
          have lt: "length (buf ?f2) < BUF_CELLS" using b2 by (simp add: BUF_CELLS_def)
          have f2: "files ?s2 = [?f2]" by simp
          from unreadc_single[OF f2 yne lt] obtain f3 where
            u: "unreadc y ?s2 = Inr (?s2\<lparr>files := [f3]\<rparr>)" and p3: "pending f3 = y # pending ?f2"
            and b3: "buf f3 = buf ?f2 @ [y]"
            by blast
          from g g2 c c2 True False xne u have "readc s = Inr (x, ?s2\<lparr>files := [f3]\<rparr>)"
            by (subst readc.simps) simp
          moreover have "splice (pending f) = x # splice (pending f3)"
            using \<open>pending f = x # xs\<close> Cons True False p2 p3 by simp
          ultimately show ?thesis using p3 p2 yne ys_ne b3 b2 by auto
        qed
      qed
    qed
  qed
qed

lemma readc_until_eof_single:
  assumes "files s = [f]" and "EOF \<notin> set (pending f)" and "length (buf f) \<le> 1"
  shows "readc_until_eof s = Inr (splice (pending f))"
  using assms
proof (induction "length (splice (pending f))" arbitrary: s f rule: less_induct)
  case less
  from readc_single[OF less.prems] obtain s' f' where
    r: "readc s = Inr (case splice (pending f) of [] \<Rightarrow> EOF | x # xs \<Rightarrow> x, s')"
    and rest: "files s' = [f']" "splice (pending f') = tl (splice (pending f))"
      "EOF \<notin> set (pending f')" "length (buf f') \<le> 1"
    by blast
  show ?case
  proof (cases "splice (pending f)")
    case Nil
    with r show ?thesis by (subst readc_until_eof.simps) simp
  next
    case (Cons x xs)
    with splice_subset[of "pending f"] less.prems(2) have xne: "x \<noteq> EOF" by auto
    have "length (splice (pending f')) < length (splice (pending f))"
      using rest(2) Cons by simp
    from less.hyps[OF this rest(1,3,4)] rest(2) Cons
    have "readc_until_eof s' = Inr xs" by simp
    with r Cons xne show ?thesis by (subst readc_until_eof.simps) simp
  qed
qed


subsection \<open>The claim about the end of the input\<close>

text \<open>
  An input completed as the specification has it: with a newline appended unless it ends
  in one.
\<close>

definition final_newline :: "int list \<Rightarrow> int list" where
  "final_newline xs = (if xs \<noteq> [] \<and> last xs = NL then xs else xs @ [NL])"

lemma terminate_final_newline:
  "EOF \<notin> set xs \<Longrightarrow> terminate 0 xs = final_newline xs"
  by (cases xs rule: rev_cases) (auto simp: terminate_def final_newline_def)

lemma canon_uchar_range: "x \<in> set (canon uchar_int cr bs) \<Longrightarrow> 0 \<le> x \<and> x \<noteq> 13"
proof (induction bs arbitrary: cr)
  case Nil
  then show ?case by simp
next
  case (Cons c cs)
  then show ?case
    using uchar_int_nonneg[of c] uchar_int_CR[of c] by (auto split: if_splits)
qed

lemma schar_int_CR: "schar_int c = 13 \<longleftrightarrow> c = CHR 0x0D"
proof
  assume a: "schar_int c = 13"
  have "(of_char c :: int) < 256" using uchar_int_range[of c] by (simp add: uchar_int_def)
  with a have "(of_char c :: int) = of_char (CHR 0x0D)"
    by (auto simp: schar_int_def split: if_splits)
  then show "c = CHR 0x0D" by (simp only: of_char_eq_iff)
qed (simp add: schar_int_def)

lemma schar_int_EOF: "schar_int c = EOF \<longleftrightarrow> c = CHR 0xFF"
proof
  assume a: "schar_int c = EOF"
  have "0 \<le> (of_char c :: int)" using uchar_int_range[of c] by (simp add: uchar_int_def)
  with a have "(of_char c :: int) = of_char (CHR 0xFF)"
    by (auto simp: schar_int_def split: if_splits)
  then show "c = CHR 0xFF" by (simp only: of_char_eq_iff)
qed (simp add: schar_int_def)

lemma canon_schar_range:
  "x \<in> set (canon schar_int cr cs) \<Longrightarrow> CHR 0xFF \<notin> set cs \<Longrightarrow> x \<noteq> EOF \<and> x \<noteq> 13"
proof (induction cs arbitrary: cr)
  case Nil
  then show ?case by simp
next
  case (Cons c cs)
  then show ?case
    using schar_int_EOF[of c] schar_int_CR[of c] by (auto split: if_splits)
qed

lemma final_newline_set: "set (final_newline xs) \<subseteq> insert NL (set xs)"
  by (auto simp: final_newline_def)

lemma final_newline_last: "final_newline xs \<noteq> [] \<and> last (final_newline xs) = NL"
  by (simp add: final_newline_def)

lemma splice_last:
  "d \<noteq> [] \<Longrightarrow> last d = NL \<Longrightarrow> \<not> (\<exists>pre. d = pre @ [BACKSLASH, NL]) \<Longrightarrow>
   splice d \<noteq> [] \<and> last (splice d) = NL"
proof (induction d rule: splice.induct)
  case (1 a b xs)
  show ?case
  proof (cases "a = BACKSLASH \<and> b = NL")
    case True
    with "1.prems"(3) have ne: "xs \<noteq> []" by auto
    with "1.prems"(2) have l: "last xs = NL" by simp
    have "\<not> (\<exists>pre. xs = pre @ [BACKSLASH, NL])"
    proof
      assume "\<exists>pre. xs = pre @ [BACKSLASH, NL]"
      then obtain pre where "xs = pre @ [BACKSLASH, NL]" ..
      then have "a # b # xs = (a # b # pre) @ [BACKSLASH, NL]" by simp
      with "1.prems"(3) show False by blast
    qed
    from "1.IH"(1)[OF True ne l this] True show ?thesis by simp
  next
    case False
    from "1.prems"(2) have l: "last (b # xs) = NL" by simp
    have "\<not> (\<exists>pre. b # xs = pre @ [BACKSLASH, NL])"
    proof
      assume "\<exists>pre. b # xs = pre @ [BACKSLASH, NL]"
      then obtain pre where "b # xs = pre @ [BACKSLASH, NL]" ..
      then have "a # b # xs = (a # pre) @ [BACKSLASH, NL]" by simp
      with "1.prems"(3) show False by blast
    qed
    from "1.IH"(2)[OF False _ l this] False show ?thesis by auto
  qed
qed simp_all

lemma pending_make_file:
  "pending (make_file bs nm mt) = final_newline (canon uchar_int False bs)"
proof -
  have "EOF \<notin> set (canon uchar_int False bs)"
    using canon_uchar_range[of EOF False bs] by auto
  then show ?thesis
    by (simp add: pending_def reader_chars_def make_file_def terminate_final_newline)
qed

lemma pending_make_file_string:
  assumes "CHR 0xFF \<notin> set (takeWhile (\<lambda>c. c \<noteq> CHR 0x00) str)"
  shows "pending (make_file_string str) =
           final_newline (canon schar_int False (takeWhile (\<lambda>c. c \<noteq> CHR 0x00) str))"
proof -
  have "EOF \<notin> set (canon schar_int False (takeWhile (\<lambda>c. c \<noteq> CHR 0x00) str))"
    using canon_schar_range[OF _ assms, of EOF False] by auto
  then show ?thesis
    by (simp add: pending_def reader_chars_def make_file_string_def terminate_final_newline)
qed

text \<open>
  What \<^verbatim>\<open>readc\<close> delivers up to \<^verbatim>\<open>EOF\<close>, from a file and from a string that holds no byte
  0xFF: the input with its carriage returns made newlines, completed by a newline unless
  it ends in one, and with the backslash-newline pairs removed. No carriage return is
  among these characters. They end with a newline unless the completed input ends with a
  backslash and a newline: then that last newline is removed with the backslash.
\<close>

lemma readc_delivers:
  "readc_until_eof \<lparr>files = [make_file bs nm mt], stashed = st\<rparr> =
     Inr (splice (final_newline (canon uchar_int False bs))) \<and>
   (CHR 0xFF \<notin> set (takeWhile (\<lambda>c. c \<noteq> CHR 0x00) str) \<longrightarrow>
      readc_until_eof \<lparr>files = [make_file_string str], stashed = st\<rparr> =
        Inr (splice (final_newline (canon schar_int False (takeWhile (\<lambda>c. c \<noteq> CHR 0x00) str)))) \<and>
      ord CHR 0x0D \<notin>
        set (splice (final_newline (canon schar_int False (takeWhile (\<lambda>c. c \<noteq> CHR 0x00) str))))) \<and>
   ord CHR 0x0D \<notin> set (splice (final_newline (canon uchar_int False bs))) \<and>
   (\<forall>d. d = final_newline (canon uchar_int False bs) \<or>
        d = final_newline (canon schar_int False (takeWhile (\<lambda>c. c \<noteq> CHR 0x00) str)) \<longrightarrow>
        \<not> (\<exists>pre. d = pre @ [BACKSLASH, NL]) \<longrightarrow> splice d \<noteq> [] \<and> last (splice d) = NL)"
proof (intro conjI impI allI)
  let ?s = "\<lparr>files = [make_file bs nm mt], stashed = st\<rparr>"
  have e: "EOF \<notin> set (pending (make_file bs nm mt))"
    unfolding pending_make_file
    using final_newline_set[of "canon uchar_int False bs"] canon_uchar_range[of EOF False bs]
    by auto
  have "readc_until_eof ?s = Inr (splice (pending (make_file bs nm mt)))"
    by (rule readc_until_eof_single[OF _ e]) (simp_all add: make_file_def)
  then show "readc_until_eof ?s = Inr (splice (final_newline (canon uchar_int False bs)))"
    by (simp add: pending_make_file)
  show "ord CHR 0x0D \<notin> set (splice (final_newline (canon uchar_int False bs)))"
    using splice_subset[of "final_newline (canon uchar_int False bs)"]
      final_newline_set[of "canon uchar_int False bs"] canon_uchar_range[of 13 False bs]
    by auto
next
  let ?cs = "takeWhile (\<lambda>c. c \<noteq> CHR 0x00) str"
  let ?s = "\<lparr>files = [make_file_string str], stashed = st\<rparr>"
  assume a: "CHR 0xFF \<notin> set ?cs"
  have e: "EOF \<notin> set (pending (make_file_string str))"
    unfolding pending_make_file_string[OF a]
    using final_newline_set[of "canon schar_int False ?cs"] canon_schar_range[OF _ a, of EOF False]
    by auto
  have "readc_until_eof ?s = Inr (splice (pending (make_file_string str)))"
    by (rule readc_until_eof_single[OF _ e]) (simp_all add: make_file_string_def)
  then show "readc_until_eof ?s = Inr (splice (final_newline (canon schar_int False ?cs)))"
    by (simp add: pending_make_file_string[OF a])
  show "ord CHR 0x0D \<notin> set (splice (final_newline (canon schar_int False ?cs)))"
    using splice_subset[of "final_newline (canon schar_int False ?cs)"]
      final_newline_set[of "canon schar_int False ?cs"] canon_schar_range[OF _ a, of 13 False]
    by auto
next
  fix d
  assume "d = final_newline (canon uchar_int False bs) \<or>
        d = final_newline (canon schar_int False (takeWhile (\<lambda>c. c \<noteq> CHR 0x00) str))"
    and n: "\<not> (\<exists>pre. d = pre @ [BACKSLASH, NL])"
  then have "d \<noteq> [] \<and> last d = NL" using final_newline_last by auto
  with splice_last[of d] n show "splice d \<noteq> []" "last (splice d) = NL" by auto
qed

text \<open>
  The input \<^verbatim>\<open>x\<close>, CR, LF, \<^verbatim>\<open>y\<close>, CR as a file and the input \<^verbatim>\<open>x\<close> as a string: the
  characters delivered are \<^verbatim>\<open>x\<close>, newline, \<^verbatim>\<open>y\<close>, newline, and \<^verbatim>\<open>x\<close>, newline.
\<close>

lemma readc_delivers_example:
  "readc_until_eof
     \<lparr>files = [make_file [CHR ''x'', CHR 0x0D, CHR 0x0A, CHR ''y'', CHR 0x0D] ''t.c'' 0], stashed = []\<rparr> =
     Inr [ord CHR ''x'', NL, ord CHR ''y'', NL] \<and>
   CHR 0xFF \<notin> set (takeWhile (\<lambda>c. c \<noteq> CHR 0x00) ''x'') \<and>
   readc_until_eof \<lparr>files = [make_file_string ''x''], stashed = []\<rparr> = Inr [ord CHR ''x'', NL] \<and>
   \<not> (\<exists>pre. [ord CHR ''x'', NL, ord CHR ''y'', NL] = pre @ [BACKSLASH, NL]) \<and>
   last (splice [ord CHR ''x'', NL, ord CHR ''y'', NL]) = NL"
proof -
  let ?bs = "[CHR ''x'', CHR 0x0D, CHR 0x0A, CHR ''y'', CHR 0x0D]"
  have c1: "final_newline (canon uchar_int False ?bs) = [ord CHR ''x'', NL, ord CHR ''y'', NL]"
    by (simp add: final_newline_def uchar_int_def)
  have c2: "final_newline (canon schar_int False (takeWhile (\<lambda>c. c \<noteq> CHR 0x00) ''x'')) = [ord CHR ''x'', NL]"
    by (simp add: final_newline_def schar_int_def)
  have h: "CHR 0xFF \<notin> set (takeWhile (\<lambda>c. c \<noteq> CHR 0x00) ''x'')" by simp
  have n: "\<not> (\<exists>pre. [ord CHR ''x'', NL, ord CHR ''y'', NL] = pre @ [BACKSLASH, NL])"
  proof
    assume "\<exists>pre. [ord CHR ''x'', NL, ord CHR ''y'', NL] = pre @ [BACKSLASH, NL]"
    then obtain pre where p: "[ord CHR ''x'', NL, ord CHR ''y'', NL] = pre @ [BACKSLASH, NL]" ..
    then have "butlast [ord CHR ''x'', NL, ord CHR ''y'', NL] = butlast (pre @ [BACKSLASH, NL])" by simp
    then have "last [ord CHR ''x'', NL, ord CHR ''y''] = BACKSLASH" by (simp add: butlast_append)
    then show False by simp
  qed
  from readc_delivers[of ?bs "''t.c''" 0 "[]" "''x''"] h n
  show ?thesis
    unfolding c1 c2 by simp
qed

text \<open>
  C4: the characters delivered before \<^verbatim>\<open>EOF\<close> are to end with a newline, made up where
  the input has none. The file \<^verbatim>\<open>a\<close>, backslash, newline, and the file \<^verbatim>\<open>a\<close>, backslash,
  whose newline \<^verbatim>\<open>readc_file\<close> makes up, deliver the single character \<^verbatim>\<open>a\<close>: \<^verbatim>\<open>readc\<close> takes
  the last newline for the second half of a backslash-newline pair and removes it.
  \<^verbatim>\<open>read_ident\<close>, which ends an identifier at the first character that cannot be part of
  one, then reads \<^verbatim>\<open>EOF\<close> behind the \<^verbatim>\<open>a\<close> again and again and does not return.
\<close>

theorem readc_splices_final_newline:
  "readc_until_eof \<lparr>files = [make_file [CHR ''a'', CHR 0x5C, CHR 0x0A] ''t.c'' 0], stashed = []\<rparr> =
     Inr [ord CHR ''a''] \<and>
   readc_until_eof \<lparr>files = [make_file [CHR ''a'', CHR 0x5C] ''t.c'' 0], stashed = []\<rparr> =
     Inr [ord CHR ''a''] \<and>
   lex (lexer_on [CHR ''a'', CHR 0x5C, CHR 0x0A]) = Inl Diverges \<and>
   lex (lexer_on [CHR ''a'', CHR 0x5C]) = Inl Diverges"
  by code_simp

subsection \<open>Pushing a character back\<close>

text \<open>
  A file as the functions of the stream leave it: at most \<^verbatim>\<open>BUF_CELLS\<close> characters are
  pushed back, \<^verbatim>\<open>EOF\<close> is not among them (\<^verbatim>\<open>unreadc\<close> does not store it), and a string
  that backs the file holds no byte 0xFF.
\<close>

definition file_ok :: "File \<Rightarrow> bool" where
  "file_ok f \<longleftrightarrow>
     length (buf f) \<le> BUF_CELLS \<and> EOF \<notin> set (buf f) \<and>
     (filep f = None \<longrightarrow> CHR 0xFF \<notin> set (takeWhile (\<lambda>c. c \<noteq> CHR 0x00) (pstr f)))"

lemma get_char_buf: "length (buf (snd (get_char f))) = length (buf f) - 1"
  by (simp add: get_char_def readc_file_def readc_string_def Let_def split_beta)

lemma get_char_ok:
  assumes "file_ok f"
  shows "file_ok (snd (get_char f))"
proof (cases "buf f = []")
  case False
  with assms show ?thesis
    by (auto simp: file_ok_def get_char_def dest: in_set_butlastD)
next
  case True
  show ?thesis
  proof (cases "filep f")
    case (Some fp)
    with True assms show ?thesis
      by (simp add: file_ok_def get_char_def readc_file_def Let_def split_beta)
  next
    case None
    show ?thesis
    proof (cases "pstr f")
      case Nil
      with None True assms show ?thesis
        by (simp add: file_ok_def get_char_def readc_string_def Let_def)
    next
      case (Cons c0 rest)
      show ?thesis
      proof (cases rest)
        case Nil
        with Cons None True assms show ?thesis
          by (simp add: file_ok_def get_char_def readc_string_def Let_def)
      next
        case (Cons c1 rest')
        with \<open>pstr f = c0 # rest\<close> None True assms show ?thesis
          by (auto simp: file_ok_def get_char_def readc_string_def Let_def split: if_splits)
      qed
    qed
  qed
qed

lemma get_char_EOF_ok:
  assumes "file_ok f" and "fst (get_char f) = EOF"
  shows "get_char (snd (get_char f)) = (EOF, snd (get_char f))"
proof -
  have b: "buf f = []"
  proof (rule ccontr)
    assume "buf f \<noteq> []"
    with assms(2) have "EOF \<in> set (buf f)"
      using last_in_set[of "buf f"] by (simp add: get_char_def)
    with assms(1) show False by (simp add: file_ok_def)
  qed
  show ?thesis
  proof (cases "filep f")
    case (Some fp)
    show ?thesis
    proof (cases fp)
      case Nil
      with Some b assms(2) show ?thesis
        by (auto simp: get_char_def readc_file_def Let_def split: if_splits)
    next
      case (Cons c0 rest)
      with Some b assms(2) uchar_int_nonneg[of c0] show ?thesis
        by (auto simp: get_char_def readc_file_def Let_def split_beta split: if_splits)
    qed
  next
    case None
    show ?thesis
    proof (cases "deref (pstr f) = CHR 0x00")
      case True
      with None b assms(2) show ?thesis
        by (auto simp: get_char_def readc_string_def Let_def split: if_splits)
    next
      case False
      then obtain c0 rest where p: "pstr f = c0 # rest" and c0: "c0 \<noteq> CHR 0x00"
        by (cases "pstr f") auto
      with None b assms(2) have "schar_int c0 = EOF"
        by (auto simp: get_char_def readc_string_def Let_def split: if_splits)
      then have "c0 = CHR 0xFF" by (simp add: schar_int_EOF)
      with p c0 None assms(1) show ?thesis by (simp add: file_ok_def)
    qed
  qed
qed

definition stream_ok :: "'a stream_scheme \<Rightarrow> bool" where
  "stream_ok s \<longleftrightarrow> (\<forall>f \<in> set (files s). file_ok f)"

lemma advance_ok [simp]: "file_ok (advance c f) = file_ok f"
  by (simp add: file_ok_def advance_def)

lemma get_ok:
  assumes "get s = Inr (c, s1)" and "stream_ok s"
  shows "stream_ok s1 \<and> files s1 \<noteq> [] \<and>
         length (buf (last (files s1))) = length (buf (last (files s))) - 1 \<and>
         length (buf (last (files s))) \<le> BUF_CELLS \<and>
         (c = NL \<longrightarrow> column (last (files s1)) = 1) \<and>
         (c = EOF \<longrightarrow> get s1 = Inr (EOF, s1))"
proof -
  from assms(1) have ne: "files s \<noteq> []" by (auto simp: get_eq split: if_splits)
  let ?f = "last (files s)"
  from ne assms(1) have c: "c = fst (get_char ?f)"
    and s1: "s1 = s\<lparr>files := butlast (files s) @ [advance c (snd (get_char ?f))]\<rparr>"
    by (auto simp: get_eq)
  from ne assms(2) have okf: "file_ok ?f" by (simp add: stream_ok_def)
  have ok1: "stream_ok s1"
    using assms(2) get_char_ok[OF okf] unfolding s1 stream_ok_def
    by (auto dest: in_set_butlastD)
  have e: "get s1 = Inr (EOF, s1)" if "c = EOF"
    using get_char_EOF_ok[OF okf] that c unfolding s1
    by (simp add: get_eq advance_def)
  from okf have "length (buf ?f) \<le> BUF_CELLS" by (simp add: file_ok_def)
  with ok1 e show ?thesis
    unfolding s1 by (simp add: get_char_buf advance_def)
qed

lemma unreadc_get:
  assumes "files s \<noteq> []" and "length (buf (last (files s))) < BUF_CELLS" and "c \<noteq> EOF"
    and "c = NL \<longrightarrow> column (last (files s)) = 1"
  shows "\<exists>s2. unreadc c s = Inr s2 \<and> get s2 = Inr (c, s)"
proof (cases "c = NL")
  case True
  from assms(4) True have e: "(last (files s))\<lparr>column := 1\<rparr> = last (files s)" by auto
  from True assms(1-3) show ?thesis
    by (simp add: unreadc_def get_eq get_char_def advance_def Let_def e)
next
  case False
  with assms show ?thesis
    by (simp add: unreadc_def get_eq get_char_def advance_def Let_def)
qed

text \<open>
  The round trip of C5, where no byte 0xFF of a string is in the way: after \<^verbatim>\<open>readc\<close> has
  returned a character other than \<^verbatim>\<open>EOF\<close>, \<^verbatim>\<open>unreadc\<close> of that character succeeds, and the
  next \<^verbatim>\<open>readc\<close> returns the character and the very state the first one returned, with
  its lines and columns.
\<close>

lemma readc_unreadc_readc:
  assumes "readc s = Inr (c, s1)" and "c \<noteq> EOF" and "stream_ok s"
  shows "\<exists>s2. unreadc c s1 = Inr s2 \<and> readc s2 = Inr (c, s1)"
  using assms
proof (induction "stream_left s" arbitrary: s rule: less_induct)
  case less
  from less.prems(1) obtain c0 sa where g: "get s = Inr (c0, sa)"
    by (subst (asm) readc.simps) (auto split: sum.splits)
  note ga = get_ok[OF g less.prems(3)]
  note gl = get_left[OF g]
  have bufa: "length (buf (last (files sa))) < BUF_CELLS" using ga by (auto simp: BUF_CELLS_def)
  show ?case
  proof (cases "c0 = EOF")
    case True
    with g less.prems(1,2) have n1: "length (files sa) \<noteq> 1"
      and r: "readc (sa\<lparr>files := butlast (files sa)\<rparr>) = Inr (c, s1)"
      by (subst (asm) readc.simps, auto split: if_splits)+
    from ga have ok: "stream_ok (sa\<lparr>files := butlast (files sa)\<rparr>)"
      by (auto simp: stream_ok_def dest: in_set_butlastD)
    from ga stream_left_pop[of sa] gl
    have "stream_left (sa\<lparr>files := butlast (files sa)\<rparr>) < stream_left s" by simp
    from less.hyps[OF this r less.prems(2) ok] show ?thesis .
  next
    case ne: False
    show ?thesis
    proof (cases "c0 = BACKSLASH")
      case False
      with ne g less.prems(1) have eq: "c = c0" "s1 = sa"
        by (subst (asm) readc.simps, simp)+
      from unreadc_get[OF _ bufa, of c] ga less.prems(2) eq
      obtain s2 where u: "unreadc c sa = Inr s2" and g2: "get s2 = Inr (c, sa)" by auto
      from g2 False ne eq have "readc s2 = Inr (c, sa)" by (subst readc.simps) simp
      with u eq show ?thesis by simp
    next
      case True
      with g less.prems(1) obtain c2 sb where gb: "get sa = Inr (c2, sb)"
        by (subst (asm) readc.simps) (auto split: sum.splits)
      note gbo = get_ok[OF gb ga[THEN conjunct1]]
      show ?thesis
      proof (cases "c2 = NL")
        case nl: True
        with True g gb less.prems(1) have r: "readc sb = Inr (c, s1)"
          by (subst (asm) readc.simps) simp
        from gl get_left[OF gb] True have "stream_left sb < stream_left s" by simp
        from less.hyps[OF this r less.prems(2)] gbo show ?thesis by simp
      next
        case nnl: False
        with True g gb less.prems(1) have eq: "c = BACKSLASH" and u2: "unreadc c2 sb = Inr s1"
          by (subst (asm) readc.simps, auto split: sum.splits)+
        have g1: "get s1 = Inr (c2, sb)"
        proof (cases "c2 = EOF")
          case True
          with u2 have "s1 = sb" by (simp add: unreadc_def)
          with gbo True show ?thesis by simp
        next
          case False
          have "length (buf (last (files sb))) < BUF_CELLS"
            using gbo ga by (auto simp: BUF_CELLS_def)
          from unreadc_get[OF _ this False] gbo nnl u2 show ?thesis by auto
        qed
        have f1: "files s1 \<noteq> []" and b1: "length (buf (last (files s1))) < BUF_CELLS"
        proof -
          from u2 gbo ga have "files s1 \<noteq> [] \<and> length (buf (last (files s1))) < BUF_CELLS"
            by (auto simp: unreadc_def Let_def BUF_CELLS_def split: if_splits)
          then show "files s1 \<noteq> []" "length (buf (last (files s1))) < BUF_CELLS" by simp_all
        qed
        from unreadc_get[OF f1 b1, of c] eq
        obtain s2 where u: "unreadc c s1 = Inr s2" and g2: "get s2 = Inr (c, s1)" by auto
        from g2 g1 u2 eq nnl have "readc s2 = Inr (c, s1)" by (subst readc.simps) simp
        with u show ?thesis by simp
      qed
    qed
  qed
qed

lemma unreadc_EOF: "unreadc EOF s = Inr s"
  by (simp add: unreadc_def)

text \<open>
  The string \<^verbatim>\<open>ab\<close> followed by a newline: after each of the three characters, pushing
  it back and reading again gives the character and the state once more.
\<close>

lemma readc_unreadc_readc_example:
  "stream_ok \<lparr>files = [make_file_string [CHR ''a'', CHR ''b'', CHR 0x0A]], stashed = []\<rparr> \<and>
   (\<exists>s1 s2. readc \<lparr>files = [make_file_string [CHR ''a'', CHR ''b'', CHR 0x0A]], stashed = []\<rparr> =
               Inr (ord CHR ''a'', s1) \<and>
            unreadc (ord CHR ''a'') s1 = Inr s2 \<and> readc s2 = Inr (ord CHR ''a'', s1))"
proof -
  let ?s = "\<lparr>files = [make_file_string [CHR ''a'', CHR ''b'', CHR 0x0A]], stashed = []\<rparr>"
  have ok: "stream_ok ?s" by (simp add: stream_ok_def file_ok_def make_file_string_def BUF_CELLS_def)
  have r: "readc ?s = Inr (ord CHR ''a'', snd (projr (readc ?s)))" by code_simp
  from readc_unreadc_readc[OF r _ ok] ok r show ?thesis by auto
qed

text \<open>
  C5, at a string that holds the byte 0xFF after a backslash. \<^verbatim>\<open>readc_string\<close> reads the
  byte through a \<^verbatim>\<open>char\<close>, so that it is the value of \<^verbatim>\<open>EOF\<close>; \<^verbatim>\<open>readc\<close> returns the
  backslash, at line 1 and column 2, and cannot push the \<^verbatim>\<open>EOF\<close> back. After \<^verbatim>\<open>unreadc\<close>
  of the backslash, \<^verbatim>\<open>readc\<close> finds the newline behind the backslash, removes both and
  returns \<^verbatim>\<open>EOF\<close>, at line 2 and column 1. \<^verbatim>\<open>readc_file\<close> reads the same bytes through
  \<^verbatim>\<open>getc\<close>, and there the backslash is read again, at the same line and column.
\<close>

theorem readc_string_0xFF_round_trip:
  "bindr (readc \<lparr>files = [make_file_string [CHR 0x5C, CHR 0xFF, CHR 0x0A]], stashed = []\<rparr>) (\<lambda>(c, s1).
     bindr (unreadc c s1) (\<lambda>s2.
       bindr (readc s2) (\<lambda>(c', s3).
         Inr (c, line (last (files s1)), column (last (files s1)),
              c', line (last (files s3)), column (last (files s3)))))) =
   Inr (BACKSLASH, 1, 2, EOF, 2, 1) \<and>
   bindr (readc \<lparr>files = [make_file [CHR 0x5C, CHR 0xFF, CHR 0x0A] ''t.c'' 0], stashed = []\<rparr>) (\<lambda>(c, s1).
     bindr (unreadc c s1) (\<lambda>s2.
       bindr (readc s2) (\<lambda>(c', s3).
         Inr (c, line (last (files s1)), column (last (files s1)),
              c', line (last (files s3)), column (last (files s3)))))) =
   Inr (BACKSLASH, 1, 2, BACKSLASH, 1, 2)"
  by code_simp

end
